theory Spec2Isabelle
  imports Complex_Main "HOL-Library.AList" "HOL-Library.Sublist"
    "HOL-Library.Char_ord" "HOL-Library.List_Lexorder"
begin

section \<open>Retrieval pipeline of the EdTech tutor agent\<close>

text \<open>
  A shallow embedding of \<^verbatim>\<open>src/agent/retrieval\<close>: query expansion
  (\<^verbatim>\<open>multi_query.py\<close>), embedding with a cache (\<^verbatim>\<open>embeddings.py\<close>),
  contextual compression (\<^verbatim>\<open>compressor.py\<close>) and the pipeline that composes them
  with vector search and de-duplication (\<^verbatim>\<open>rag_pipeline.py\<close>).

  Python strings are \<open>string\<close>s; a \<open>char\<close> stands for a code point below 256, and
  \<open>length\<close> is Python's \<open>len\<close>. Floats are \<open>real\<close>s (no NaN, no rounding). An
  exception is a value \<open>Exc class details cause\<close>, and a function that can raise returns
  \<open>exc + 'a\<close>. The text-generation service, the embedding service and the vector index are
  parameters (\<open>services\<close>): each answers from the list of requests it has received so far
  and the current request, so an answer may change from one call to the next. The calls made and
  the embedding cache are the mutable state (\<open>world\<close>), passed in and returned.
\<close>

subsection \<open>Values, exceptions, documents\<close>

datatype pyval = PStr string | PInt int | PFloat real | PBool bool | PNone

datatype exc_class =
    RetrievalError | EmbeddingError | QdrantQueryError | CollectionNotFoundError
  | LLMProviderError | LLMTimeoutError | LLMRateLimitError
  | IndexError | TypeError | ValidationError | TransportError

text \<open>\<open>Exc c details cause\<close>: an exception of class \<open>c\<close> with its \<open>details\<close> dict and
  the exception it was raised \<open>from\<close>. Messages are not modelled.\<close>

datatype exc = Exc exc_class "(string \<times> pyval) list" "exc option"

record document =
  page_content :: string
  metadata :: "string \<rightharpoonup> pyval"

text \<open>A \<open>ScoredPoint\<close> of the vector index. The pipeline reads a point's id only through
  \<open>str(result.id)\<close>; \<open>sp_id\<close> is that rendering.\<close>

record scored_point =
  sp_id :: string
  score :: real
  payload :: "string \<rightharpoonup> pyval"

subsection \<open>Python string and list helpers\<close>

text \<open>\<open>str.isspace\<close> on code points below 256.\<close>

definition is_space :: "char \<Rightarrow> bool" where
  "is_space c \<longleftrightarrow>
     (let n = (of_char c :: nat)
      in (9 \<le> n \<and> n \<le> 13) \<or> (28 \<le> n \<and> n \<le> 32) \<or> n = 133 \<or> n = 160)"

text \<open>\<open>s.strip()\<close>.\<close>

definition strip :: "string \<Rightarrow> string" where
  "strip s = rev (dropWhile is_space (rev (dropWhile is_space s)))"

text \<open>\<open>s.split(c)\<close> for a one-character separator: always at least one piece.\<close>

fun split_on :: "char \<Rightarrow> string \<Rightarrow> string list" where
  "split_on c [] = [[]]"
| "split_on c (x # xs) =
     (if x = c then [] # split_on c xs
      else (case split_on c xs of
              [] \<Rightarrow> [[x]]
            | w # ws \<Rightarrow> (x # w) # ws))"

text \<open>\<open>s.split(c, 1)[-1]\<close>: what follows the first \<open>c\<close>, or all of \<open>s\<close> when it has
  none.\<close>

definition split1_last :: "char \<Rightarrow> string \<Rightarrow> string" where
  "split1_last c s = (case dropWhile (\<lambda>x. x \<noteq> c) s of [] \<Rightarrow> s | _ # rest \<Rightarrow> rest)"

text \<open>\<open>xs[:k]\<close>: a negative \<open>k\<close> counts from the end.\<close>

definition py_slice_to :: "int \<Rightarrow> 'a list \<Rightarrow> 'a list" where
  "py_slice_to k xs = (if 0 \<le> k then take (nat k) xs else take (nat (int (length xs) + k)) xs)"

text \<open>\<open>sorted(xs, key=key, reverse=True)\<close>: a stable sort into descending order of the
  key. CPython reverses the list, sorts it stably in ascending order and reverses the result,
  so elements with equal keys keep their order.\<close>

definition py_sorted_desc :: "('a \<Rightarrow> real) \<Rightarrow> 'a list \<Rightarrow> 'a list" where
  "py_sorted_desc key xs = rev (sort_key key (rev xs))"

subsection \<open>External services and mutable state\<close>

text \<open>A request to \<open>llm_provider.generate\<close>: the prompt is determined by the values put
  into its template.\<close>

datatype llm_request =
    VariationsRequest int string
  | CompressionRequest string string bool

text \<open>What \<open>llm_provider.generate\<close> does: it raises, or returns a result whose
  \<open>generations\<close> is a list of lists of generated texts.\<close>

datatype llm_outcome = LLMRaises exc | LLMResult "string list list"

type_synonym embedding = "real list"

datatype filter_value = Single pyval | Multiple "pyval list"

datatype field_match = MatchValue pyval | MatchAny "pyval list"

record search_request =
  req_collection :: string
  req_vector :: embedding
  req_limit :: int
  req_score_threshold :: real
  req_filter :: "(string \<times> field_match) list option"

record services =
  llm_generate :: "llm_request list \<Rightarrow> llm_request \<Rightarrow> llm_outcome"
  aembed_documents :: "string list list \<Rightarrow> string list \<Rightarrow> exc + embedding list"
  qdrant_search :: "search_request list \<Rightarrow> search_request \<Rightarrow> exc + scored_point list"
  md5_hexdigest :: "string \<Rightarrow> string"

record world =
  llm_calls :: "llm_request list"
  embed_calls :: "string list list"
  search_calls :: "search_request list"
  emb_cache :: "string \<rightharpoonup> embedding"
  relevance_observed :: "real list"

record settings =
  rag_top_k :: int
  rag_score_threshold :: real
  rag_multi_query_variations :: int
  rag_compression_enabled :: bool
  rag_max_context_length :: int

text \<open>\<open>result.generations[0][0].text\<close>.\<close>

definition first_text :: "string list list \<Rightarrow> exc + string" where
  "first_text generations =
     (case generations of
        [] \<Rightarrow> Inl (Exc IndexError [] None)
      | g # _ \<Rightarrow> (case g of [] \<Rightarrow> Inl (Exc IndexError [] None) | t # _ \<Rightarrow> Inr t))"

text \<open>One call of \<open>llm_provider.generate\<close>, recorded in the state.\<close>

definition call_llm :: "services \<Rightarrow> llm_request \<Rightarrow> world \<Rightarrow> llm_outcome \<times> world" where
  "call_llm sv req w =
     (llm_generate sv (llm_calls w) req, w\<lparr>llm_calls := llm_calls w @ [req]\<rparr>)"

text \<open>Truth value of a list (\<open>if xs:\<close>).\<close>

definition nonempty :: "'a list \<Rightarrow> bool" where
  "nonempty xs = (case xs of [] \<Rightarrow> False | _ # _ \<Rightarrow> True)"

subsection \<open>\<^verbatim>\<open>multi_query.py\<close>: MultiQueryRetriever\<close>

record multi_query_retriever =
  num_variations :: int

text \<open>\<open>__init__\<close>: \<open>num_variations or settings.rag_multi_query_variations\<close>.\<close>

definition MultiQueryRetriever_init :: "settings \<Rightarrow> int option \<Rightarrow> multi_query_retriever" where
  "MultiQueryRetriever_init st nv =
     \<lparr>num_variations =
        (case nv of
           None \<Rightarrow> rag_multi_query_variations st
         | Some n \<Rightarrow> if n = 0 then rag_multi_query_variations st else n)\<rparr>"

text \<open>The stripped, non-blank lines of the generated text.\<close>

definition parse_variations :: "string \<Rightarrow> string list" where
  "parse_variations variations_text =
     map strip (filter (\<lambda>line. strip line \<noteq> []) (split_on (CHR 0x0A) (strip variations_text)))"

text \<open>\<open>var.split(".", 1)[-1].strip() if "." in var[:5] else var\<close>.\<close>

definition remove_numbering :: "string \<Rightarrow> string" where
  "remove_numbering var =
     (if CHR ''.'' \<in> set (take 5 var) then strip (split1_last (CHR ''.'') var) else var)"

definition generate_queries ::
  "services \<Rightarrow> multi_query_retriever \<Rightarrow> string \<Rightarrow> world \<Rightarrow> (exc + string list) \<times> world" where
  "generate_queries sv mq original_query w =
     (if strip original_query = [] then (Inl (Exc RetrievalError [] None), w)
      else
        (case call_llm sv (VariationsRequest (num_variations mq) original_query) w of
           (LLMRaises e, w') \<Rightarrow> (Inr [original_query], w')
         | (LLMResult generations, w') \<Rightarrow>
             (case first_text generations of
                Inl e \<Rightarrow> (Inr [original_query], w')
              | Inr variations_text \<Rightarrow>
                  (let variations = map remove_numbering (parse_variations variations_text);
                       all_queries =
                         original_query # filter (\<lambda>var. var \<noteq> original_query) variations
                   in (Inr (py_slice_to (num_variations mq + 1) all_queries), w')))))"

subsection \<open>\<^verbatim>\<open>compressor.py\<close>: ContextualizedCompressor\<close>

record compressor =
  max_context_length :: int
  use_fallback_model :: bool

text \<open>\<open>__init__\<close>: \<open>max_context_length or settings.rag_max_context_length\<close>.\<close>

definition ContextualizedCompressor_init ::
  "settings \<Rightarrow> int option \<Rightarrow> bool \<Rightarrow> compressor" where
  "ContextualizedCompressor_init st mcl ufm =
     \<lparr>max_context_length =
        (case mcl of
           None \<Rightarrow> rag_max_context_length st
         | Some n \<Rightarrow> if n = 0 then rag_max_context_length st else n),
      use_fallback_model = ufm\<rparr>"

text \<open>\<open>_compress_single_document\<close>: one generation call; any exception, also of reading
  the generated text, gives the original text back.\<close>

definition compress_single_document ::
  "services \<Rightarrow> compressor \<Rightarrow> string \<Rightarrow> string \<Rightarrow> world \<Rightarrow> string \<times> world" where
  "compress_single_document sv cp document_text query w =
     (case call_llm sv (CompressionRequest query document_text (use_fallback_model cp)) w of
        (LLMRaises e, w') \<Rightarrow> (document_text, w')
      | (LLMResult generations, w') \<Rightarrow>
          (case first_text generations of
             Inl e \<Rightarrow> (document_text, w')
           | Inr t \<Rightarrow> (strip t, w')))"

text \<open>The compressed document built for \<open>doc\<close> from its compressed content.\<close>

definition compressed_document :: "document \<Rightarrow> string \<Rightarrow> document" where
  "compressed_document doc compressed_content =
     \<lparr>page_content = compressed_content,
      metadata = (metadata doc)
        (''compressed'' \<mapsto> PBool True,
         ''original_length'' \<mapsto> PInt (int (length (page_content doc))),
         ''compressed_length'' \<mapsto> PInt (int (length compressed_content)),
         ''compression_ratio'' \<mapsto>
            (if length (page_content doc) > 0
             then PFloat (real (length compressed_content) / real (length (page_content doc)))
             else PInt 0))\<rparr>"

text \<open>The loop of \<open>compress_documents\<close> over the remaining documents, from the state
  \<open>(compressed_docs, total_tokens, world)\<close>.\<close>

fun compress_loop ::
  "services \<Rightarrow> compressor \<Rightarrow> string \<Rightarrow> document list \<Rightarrow>
   document list \<times> int \<times> world \<Rightarrow> document list \<times> int \<times> world" where
  "compress_loop sv cp query [] st = st"
| "compress_loop sv cp query (doc # docs) (compressed_docs, total_tokens, w) =
     (if total_tokens \<ge> max_context_length cp then (compressed_docs, total_tokens, w)
      else
        (case compress_single_document sv cp (page_content doc) query w of
           (compressed_content, w') \<Rightarrow>
             if compressed_content = ''NOT_RELEVANT''
             then compress_loop sv cp query docs (compressed_docs, total_tokens, w')
             else
               (let doc_tokens = int (length compressed_content) div 4
                in compress_loop sv cp query docs
                     (compressed_docs @ [compressed_document doc compressed_content],
                      total_tokens + doc_tokens, w'))))"

text \<open>\<open>compress_documents\<close>. Nothing in the loop raises (the single-document call catches
  its own exceptions), so the handler that falls back to \<open>_fallback_truncate\<close> is never
  entered and is not modelled.\<close>

definition compress_documents ::
  "services \<Rightarrow> compressor \<Rightarrow> document list \<Rightarrow> string \<Rightarrow> world \<Rightarrow> document list \<times> world" where
  "compress_documents sv cp documents query w =
     (if \<not> nonempty documents then ([], w)
      else if strip query = [] then (documents, w)
      else
        (case compress_loop sv cp query documents ([], 0, w) of
           (compressed_docs, total_tokens, w') \<Rightarrow> (compressed_docs, w')))"

subsection \<open>\<^verbatim>\<open>embeddings.py\<close>: EmbeddingsManager\<close>

text \<open>The first loop of \<open>embed_documents\<close> over \<open>enumerate(texts)\<close>: the cached vectors,
  the texts to embed and their indices, each in input order.\<close>

fun partition_texts ::
  "(string \<Rightarrow> string) \<Rightarrow> (string \<rightharpoonup> embedding) \<Rightarrow> bool \<Rightarrow> (nat \<times> string) list \<Rightarrow>
   embedding list \<times> string list \<times> nat list" where
  "partition_texts h c use_cache [] = ([], [], [])"
| "partition_texts h c use_cache ((i, t) # rest) =
     (case partition_texts h c use_cache rest of
        (embeddings, texts_to_embed, text_indices) \<Rightarrow>
          (case (if use_cache then c (h t) else None) of
             Some e \<Rightarrow> (e # embeddings, texts_to_embed, text_indices)
           | None \<Rightarrow> (embeddings, t # texts_to_embed, i # text_indices)))"

text \<open>The caching loop over \<open>zip(texts_to_embed, new_embeddings)\<close>.\<close>

fun store_all ::
  "(string \<Rightarrow> string) \<Rightarrow> (string \<times> embedding) list \<Rightarrow> (string \<rightharpoonup> embedding) \<Rightarrow>
   (string \<rightharpoonup> embedding)" where
  "store_all h [] c = c"
| "store_all h ((t, e) # rest) c = store_all h rest (c(h t \<mapsto> e))"

text \<open>The merge loop over \<open>range(len(texts))\<close>: \<open>new_idx\<close> and \<open>cached_idx\<close> walk through
  the two lists, and reading past the end of one raises \<open>IndexError\<close>.\<close>

fun merge_results ::
  "nat list \<Rightarrow> nat list \<Rightarrow> embedding list \<Rightarrow> embedding list \<Rightarrow> exc + embedding list" where
  "merge_results text_indices [] new_embeddings embeddings = Inr []"
| "merge_results text_indices (i # rest) new_embeddings embeddings =
     (if i \<in> set text_indices then
        (case new_embeddings of
           [] \<Rightarrow> Inl (Exc IndexError [] None)
         | e # new' \<Rightarrow>
             (case merge_results text_indices rest new' embeddings of
                Inl x \<Rightarrow> Inl x
              | Inr result \<Rightarrow> Inr (e # result)))
      else
        (case embeddings of
           [] \<Rightarrow> Inl (Exc IndexError [] None)
         | e # cached' \<Rightarrow>
             (case merge_results text_indices rest new_embeddings cached' of
                Inl x \<Rightarrow> Inl x
              | Inr result \<Rightarrow> Inr (e # result))))"

text \<open>One run of the body of \<open>embed_documents\<close>.\<close>

definition embed_documents_attempt ::
  "services \<Rightarrow> string list \<Rightarrow> bool \<Rightarrow> world \<Rightarrow> (exc + embedding list) \<times> world" where
  "embed_documents_attempt sv texts use_cache w =
     (if texts = [] then (Inr [], w)
      else
        (case partition_texts (md5_hexdigest sv) (emb_cache w) use_cache (enumerate 0 texts) of
           (embeddings, texts_to_embed, text_indices) \<Rightarrow>
             if texts_to_embed = [] then (Inr embeddings, w)
             else
               (let w1 = w\<lparr>embed_calls := embed_calls w @ [texts_to_embed]\<rparr>
                in case aembed_documents sv (embed_calls w) texts_to_embed of
                     Inl e \<Rightarrow> (Inl (Exc EmbeddingError [] (Some e)), w1)
                   | Inr new_embeddings \<Rightarrow>
                       (let w2 =
                          (if use_cache
                           then w1\<lparr>emb_cache :=
                                  store_all (md5_hexdigest sv)
                                    (zip texts_to_embed new_embeddings) (emb_cache w1)\<rparr>
                           else w1)
                        in case merge_results text_indices [0..<length texts]
                                  new_embeddings embeddings of
                             Inl e \<Rightarrow> (Inl (Exc EmbeddingError [] (Some e)), w2)
                           | Inr result \<Rightarrow> (Inr result, w2)))))"

text \<open>The \<open>@retry\<close> decorator with \<open>reraise=True\<close>: \<open>retrying k f\<close> runs \<open>f\<close> and, when it
  raises, runs it again, up to \<open>k\<close> more times; the last exception is the result.\<close>

fun retrying :: "nat \<Rightarrow> (world \<Rightarrow> (exc + 'a) \<times> world) \<Rightarrow> world \<Rightarrow> (exc + 'a) \<times> world" where
  "retrying 0 f w = f w"
| "retrying (Suc k) f w =
     (case f w of
        (Inl e, w') \<Rightarrow> retrying k f w'
      | (Inr v, w') \<Rightarrow> (Inr v, w'))"

text \<open>\<open>embed_documents\<close>, with \<open>stop_after_attempt(3)\<close>.\<close>

definition embed_documents ::
  "services \<Rightarrow> string list \<Rightarrow> bool \<Rightarrow> world \<Rightarrow> (exc + embedding list) \<times> world" where
  "embed_documents sv texts use_cache = retrying 2 (embed_documents_attempt sv texts use_cache)"

subsection \<open>\<^verbatim>\<open>rag_pipeline.py\<close>: RAGPipeline\<close>

record rag_pipeline =
  collection_name :: string
  top_k :: int
  score_threshold :: real
  enable_compression :: bool

text \<open>\<open>__init__\<close>: \<open>top_k or settings.rag_top_k\<close>, and likewise for the threshold.\<close>

definition RAGPipeline_init ::
  "settings \<Rightarrow> string \<Rightarrow> int option \<Rightarrow> real option \<Rightarrow> bool option \<Rightarrow> rag_pipeline" where
  "RAGPipeline_init st cn tk sth ec =
     \<lparr>collection_name = cn,
      top_k = (case tk of None \<Rightarrow> rag_top_k st | Some k \<Rightarrow> if k = 0 then rag_top_k st else k),
      score_threshold =
        (case sth of
           None \<Rightarrow> rag_score_threshold st
         | Some t \<Rightarrow> if t = 0 then rag_score_threshold st else t),
      enable_compression = (case ec of None \<Rightarrow> rag_compression_enabled st | Some b \<Rightarrow> b)\<rparr>"

text \<open>The module-level instances \<open>multi_query_retriever\<close> and \<open>compressor\<close>.\<close>

definition global_multi_query_retriever :: "settings \<Rightarrow> multi_query_retriever" where
  "global_multi_query_retriever st = MultiQueryRetriever_init st None"

definition global_compressor :: "settings \<Rightarrow> compressor" where
  "global_compressor st = ContextualizedCompressor_init st None True"

text \<open>\<open>MatchValue(value=v)\<close> and \<open>MatchAny(any=vs)\<close> are validated models of the index's
  client: a single value is a bool, an int or a string, a list is a list of strings or a list
  of ints; anything else (a float, \<open>None\<close>, a mixed list) raises a validation error.\<close>

definition match_value :: "pyval \<Rightarrow> exc + field_match" where
  "match_value v =
     (case v of
        PStr s \<Rightarrow> Inr (MatchValue v)
      | PInt i \<Rightarrow> Inr (MatchValue v)
      | PBool b \<Rightarrow> Inr (MatchValue v)
      | _ \<Rightarrow> Inl (Exc ValidationError [] None))"

definition match_any :: "pyval list \<Rightarrow> exc + field_match" where
  "match_any vs =
     (if list_all (\<lambda>v. case v of PStr s \<Rightarrow> True | _ \<Rightarrow> False) vs
         \<or> list_all (\<lambda>v. case v of PInt i \<Rightarrow> True | _ \<Rightarrow> False) vs
      then Inr (MatchAny vs)
      else Inl (Exc ValidationError [] None))"

text \<open>The loop of \<open>_build_qdrant_filter\<close> over \<open>metadata_filter.items()\<close>.\<close>

fun filter_conditions :: "(string \<times> filter_value) list \<Rightarrow> exc + (string \<times> field_match) list" where
  "filter_conditions [] = Inr []"
| "filter_conditions ((key, v) # items) =
     (case (case v of Multiple vs \<Rightarrow> match_any vs | Single x \<Rightarrow> match_value x) of
        Inl e \<Rightarrow> Inl e
      | Inr m \<Rightarrow>
          (case filter_conditions items of
             Inl e \<Rightarrow> Inl e
           | Inr conditions \<Rightarrow> Inr ((key, m) # conditions)))"

definition build_qdrant_filter ::
  "(string \<times> filter_value) list option \<Rightarrow> exc + (string \<times> field_match) list option" where
  "build_qdrant_filter metadata_filter =
     (case metadata_filter of
        None \<Rightarrow> Inr None
      | Some items \<Rightarrow>
          if items = [] then Inr None
          else
            (case filter_conditions items of
               Inl e \<Rightarrow> Inl e
             | Inr conditions \<Rightarrow> Inr (if conditions = [] then None else Some conditions)))"

text \<open>\<open>seen_ids\<close> is a dict in insertion order: assigning to a key it has keeps the key's
  place, assigning to a new key appends.\<close>

type_synonym seen_dict = "(string \<times> scored_point) list"

definition dedup_step :: "seen_dict \<Rightarrow> scored_point \<Rightarrow> seen_dict" where
  "dedup_step seen_ids result =
     (let point_id = sp_id result in
      case map_of seen_ids point_id of
        None \<Rightarrow> AList.update point_id result seen_ids
      | Some kept \<Rightarrow>
          if score result > score kept then AList.update point_id result seen_ids
          else seen_ids)"

definition deduplicate_results :: "scored_point list \<Rightarrow> scored_point list" where
  "deduplicate_results results =
     py_sorted_desc score (map snd (foldl dedup_step [] results))"

text \<open>Python's truth value of a payload value.\<close>

definition truthy :: "pyval \<Rightarrow> bool" where
  "truthy v =
     (case v of
        PStr s \<Rightarrow> s \<noteq> []
      | PInt i \<Rightarrow> i \<noteq> 0
      | PFloat r \<Rightarrow> r \<noteq> 0
      | PBool b \<Rightarrow> b
      | PNone \<Rightarrow> False)"

text \<open>\<open>d.get(key, default)\<close>.\<close>

definition dict_get :: "(string \<rightharpoonup> pyval) \<Rightarrow> string \<Rightarrow> pyval \<Rightarrow> pyval" where
  "dict_get d key dflt = (case d key of None \<Rightarrow> dflt | Some v \<Rightarrow> v)"

text \<open>One step of \<open>_convert_to_documents\<close>. The payload's entries other than
  \<open>page_content\<close> are laid over \<open>id\<close> and \<open>score\<close>. \<open>Document\<close> validates its content as a
  string.\<close>

definition convert_result :: "scored_point \<Rightarrow> exc + document" where
  "convert_result result =
     (let first_choice = dict_get (payload result) ''page_content'' (PStr []);
          content =
            (if \<not> truthy first_choice then dict_get (payload result) ''text'' (PStr [])
             else first_choice);
          md = (\<lambda>k. if k \<noteq> ''page_content'' \<and> payload result k \<noteq> None then payload result k
                    else [''id'' \<mapsto> PStr (sp_id result), ''score'' \<mapsto> PFloat (score result)] k)
      in case content of
           PStr s \<Rightarrow> Inr \<lparr>page_content = s, metadata = md\<rparr>
         | _ \<Rightarrow> Inl (Exc ValidationError [] None))"

fun convert_to_documents :: "scored_point list \<Rightarrow> exc + document list" where
  "convert_to_documents [] = Inr []"
| "convert_to_documents (result # results) =
     (case convert_result result of
        Inl e \<Rightarrow> Inl e
      | Inr d \<Rightarrow>
          (case convert_to_documents results of
             Inl e \<Rightarrow> Inl e
           | Inr ds \<Rightarrow> Inr (d # ds)))"

text \<open>The search loop over \<open>zip(queries, query_embeddings)\<close>; \<open>qdrant_manager.search\<close> is
  the external vector index, one recorded call per pair.\<close>

fun search_all ::
  "services \<Rightarrow> rag_pipeline \<Rightarrow> (string \<times> field_match) list option \<Rightarrow>
   (string \<times> embedding) list \<Rightarrow> world \<Rightarrow> (exc + scored_point list) \<times> world" where
  "search_all sv pl qf [] w = (Inr [], w)"
| "search_all sv pl qf ((query_text, e) # rest) w =
     (let req = \<lparr>req_collection = collection_name pl, req_vector = e, req_limit = top_k pl,
                  req_score_threshold = score_threshold pl, req_filter = qf\<rparr>;
          w1 = w\<lparr>search_calls := search_calls w @ [req]\<rparr>
      in case qdrant_search sv (search_calls w) req of
           Inl x \<Rightarrow> (Inl x, w1)
         | Inr results \<Rightarrow>
             (case search_all sv pl qf rest w1 of
                (Inl x, w2) \<Rightarrow> (Inl x, w2)
              | (Inr others, w2) \<Rightarrow> (Inr (results @ others), w2)))"

text \<open>\<open>sum(doc.metadata.get("score", 0) for doc in documents)\<close>: a score that is not a
  number raises \<open>TypeError\<close>.\<close>

definition score_number :: "document \<Rightarrow> exc + real" where
  "score_number doc =
     (case dict_get (metadata doc) ''score'' (PInt 0) of
        PInt i \<Rightarrow> Inr (real_of_int i)
      | PFloat r \<Rightarrow> Inr r
      | PBool b \<Rightarrow> Inr (if b then 1 else 0)
      | _ \<Rightarrow> Inl (Exc TypeError [] None))"

fun sum_scores :: "document list \<Rightarrow> real \<Rightarrow> exc + real" where
  "sum_scores [] acc = Inr acc"
| "sum_scores (doc # docs) acc =
     (case score_number doc of
        Inl e \<Rightarrow> Inl e
      | Inr x \<Rightarrow> sum_scores docs (acc + x))"

text \<open>Step 1 of \<open>retrieve\<close>: the queries to search with.\<close>

definition expand_queries ::
  "services \<Rightarrow> settings \<Rightarrow> string \<Rightarrow> bool \<Rightarrow> world \<Rightarrow> (exc + string list) \<times> world" where
  "expand_queries sv st query enable_multi_query w =
     (if enable_multi_query
      then generate_queries sv (global_multi_query_retriever st) query w
      else (Inr [query], w))"

text \<open>Steps 6 and 7 of \<open>retrieve\<close>: the documents after the optional compression.\<close>

definition compress_if_enabled ::
  "services \<Rightarrow> settings \<Rightarrow> rag_pipeline \<Rightarrow> document list \<Rightarrow> string \<Rightarrow> world \<Rightarrow>
   document list \<times> world" where
  "compress_if_enabled sv st pl converted query w =
     (if enable_compression pl \<and> nonempty converted
      then compress_documents sv (global_compressor st) converted query w
      else (converted, w))"

text \<open>The body of the \<open>try\<close> block of \<open>retrieve\<close>.\<close>

definition retrieve_try ::
  "services \<Rightarrow> settings \<Rightarrow> rag_pipeline \<Rightarrow> string \<Rightarrow> (string \<times> filter_value) list option \<Rightarrow>
   bool \<Rightarrow> world \<Rightarrow> (exc + document list) \<times> world" where
  "retrieve_try sv st pl query metadata_filter enable_multi_query w =
     (case expand_queries sv st query enable_multi_query w of
        (Inl x, w1) \<Rightarrow> (Inl x, w1)
      | (Inr queries, w1) \<Rightarrow>
          (case embed_documents sv queries True w1 of
             (Inl x, w2) \<Rightarrow> (Inl x, w2)
           | (Inr query_embeddings, w2) \<Rightarrow>
               (case build_qdrant_filter metadata_filter of
                  Inl x \<Rightarrow> (Inl x, w2)
                | Inr qdrant_filter \<Rightarrow>
                    (case search_all sv pl qdrant_filter (zip queries query_embeddings) w2 of
                       (Inl x, w3) \<Rightarrow> (Inl x, w3)
                     | (Inr all_results, w3) \<Rightarrow>
                         (case convert_to_documents (deduplicate_results all_results) of
                            Inl x \<Rightarrow> (Inl x, w3)
                          | Inr converted \<Rightarrow>
                              (case compress_if_enabled sv st pl converted query w3 of
                                 (documents, w4) \<Rightarrow>
                                   if nonempty documents then
                                     (case sum_scores documents 0 of
                                        Inl x \<Rightarrow> (Inl x, w4)
                                      | Inr score_sum \<Rightarrow>
                                          (Inr documents,
                                           w4\<lparr>relevance_observed :=
                                                relevance_observed w4 @
                                                  [score_sum / real (length documents)]\<rparr>))
                                   else (Inr documents, w4)))))))"

text \<open>The exception \<open>retrieve\<close> raises \<open>from\<close> a cause:
  \<open>RetrievalError(..., details={"query": query, "collection": self.collection_name})\<close>.\<close>

definition retrieval_error :: "string \<Rightarrow> rag_pipeline \<Rightarrow> exc \<Rightarrow> exc" where
  "retrieval_error query pl cause =
     Exc RetrievalError [(''query'', PStr query), (''collection'', PStr (collection_name pl))]
       (Some cause)"

text \<open>\<open>retrieve\<close>: whatever the body raises is raised again as that \<open>RetrievalError\<close>.\<close>

definition retrieve ::
  "services \<Rightarrow> settings \<Rightarrow> rag_pipeline \<Rightarrow> string \<Rightarrow> (string \<times> filter_value) list option \<Rightarrow>
   bool \<Rightarrow> world \<Rightarrow> (exc + document list) \<times> world" where
  "retrieve sv st pl query metadata_filter enable_multi_query w =
     (case retrieve_try sv st pl query metadata_filter enable_multi_query w of
        (Inl e, w') \<Rightarrow> (Inl (retrieval_error query pl e), w')
      | (Inr documents, w') \<Rightarrow> (Inr documents, w'))"

subsection \<open>Auxiliary notions used in the statements\<close>

text \<open>The distinct elements of a list, in the order of their first occurrence.\<close>

fun first_occurrences :: "'a list \<Rightarrow> 'a list" where
  "first_occurrences [] = []"
| "first_occurrences (x # xs) = x # filter (\<lambda>y. y \<noteq> x) (first_occurrences xs)"

text \<open>What the de-duplication keeps under key \<open>k\<close> after reading \<open>rs\<close>: a hit \<open>v\<close> with
  that id, of the greatest score among the hits of that id, and the first such hit.\<close>

definition retained_ok :: "scored_point list \<Rightarrow> string \<Rightarrow> scored_point \<Rightarrow> bool" where
  "retained_ok rs k v \<longleftrightarrow>
     sp_id v = k \<and> (\<forall>x \<in> set rs. sp_id x = k \<longrightarrow> score x \<le> score v) \<and>
     find (\<lambda>x. sp_id x = k \<and> score x = score v) rs = Some v"

text \<open>The token estimate of a list of documents: the sum of \<open>len(page_content) // 4\<close>.\<close>

definition tokens_of :: "document list \<Rightarrow> int" where
  "tokens_of ds = sum_list (map (\<lambda>d. int (length (page_content d)) div 4) ds)"

text \<open>A generation call that gives no text: it raised, or its result has no
  \<open>generations[0][0]\<close>.\<close>

definition generation_failed :: "llm_outcome \<Rightarrow> bool" where
  "generation_failed outcome =
     (case outcome of
        LLMRaises e \<Rightarrow> True
      | LLMResult generations \<Rightarrow> (case first_text generations of Inl e \<Rightarrow> True | Inr t \<Rightarrow> False))"

text \<open>Whether \<open>embed_documents\<close> finds a text in the cache, and the texts it does not
  find, in input order (duplicates included).\<close>

definition is_cached :: "services \<Rightarrow> world \<Rightarrow> bool \<Rightarrow> string \<Rightarrow> bool" where
  "is_cached sv w use_cache t \<longleftrightarrow> use_cache \<and> emb_cache w (md5_hexdigest sv t) \<noteq> None"

definition uncached_texts :: "services \<Rightarrow> world \<Rightarrow> bool \<Rightarrow> string list \<Rightarrow> string list" where
  "uncached_texts sv w use_cache texts = filter (\<lambda>t. \<not> is_cached sv w use_cache t) texts"

subsection \<open>Example inputs\<close>

text \<open>Hits with an empty payload, with a \<open>text\<close> and with a \<open>page_content\<close>; a document
  whose id is its content.\<close>

definition hit :: "string \<Rightarrow> real \<Rightarrow> scored_point" where
  "hit i s = \<lparr>sp_id = i, score = s, payload = Map.empty\<rparr>"

definition hit_text :: "string \<Rightarrow> real \<Rightarrow> string \<Rightarrow> scored_point" where
  "hit_text i s t = \<lparr>sp_id = i, score = s, payload = [''text'' \<mapsto> PStr t]\<rparr>"

definition hit_content :: "string \<Rightarrow> real \<Rightarrow> string \<Rightarrow> scored_point" where
  "hit_content i s t = \<lparr>sp_id = i, score = s, payload = [''page_content'' \<mapsto> PStr t]\<rparr>"

definition doc_of :: "string \<Rightarrow> document" where
  "doc_of t = \<lparr>page_content = t, metadata = [''id'' \<mapsto> PStr t]\<rparr>"

text \<open>Four hits of two ids: id \<open>2\<close> comes three times, its best score twice.\<close>

definition example_hits :: "scored_point list" where
  "example_hits =
     [hit_text ''2'' 0.5 ''a'', hit_text ''1'' 0.6 ''b'', hit_text ''2'' 0.7 ''c'',
      hit_text ''2'' 0.7 ''d'']"

text \<open>The state before any call, with an empty cache.\<close>

definition example_world :: world where
  "example_world = \<lparr>llm_calls = [], embed_calls = [], search_calls = [],
     emb_cache = Map.empty, relevance_observed = []\<rparr>"

text \<open>The default settings of \<^verbatim>\<open>config.py\<close>, a compressor with budget 1000, and a
  pipeline with \<open>top_k = 1\<close> and compression off.\<close>

definition example_settings :: settings where
  "example_settings =
     \<lparr>rag_top_k = 5, rag_score_threshold = 0.7, rag_multi_query_variations = 3,
      rag_compression_enabled = True, rag_max_context_length = 8000\<rparr>"

definition budget_1000 :: compressor where
  "budget_1000 = \<lparr>max_context_length = 1000, use_fallback_model = True\<rparr>"

definition example_pipeline :: rag_pipeline where
  "example_pipeline = RAGPipeline_init example_settings ''courses'' (Some 1) None (Some False)"

text \<open>Services that answer: the generated variations are \<open>1. xy\<close> and \<open>xy\<close>; the
  compression of \<open>d1\<close> is the sentinel and of anything else \<open>keep\<close>; a text is embedded as its
  length; the index has one hit per search, hit \<open>1\<close> for the vector \<open>[1]\<close> and hit \<open>2\<close>
  otherwise, returns at most \<open>limit\<close> hits and rejects a negative limit.\<close>

definition example_services :: services where
  "example_services =
     \<lparr>llm_generate = (\<lambda>calls req.
        case req of
          CompressionRequest q t fb \<Rightarrow>
            if t = ''d1'' then LLMResult [['' NOT_RELEVANT '']] else LLMResult [[''keep'']]
        | VariationsRequest n q \<Rightarrow> LLMResult [[''1. xy'' @ [CHR 0x0A] @ ''xy'']]),
      aembed_documents = (\<lambda>calls texts. Inr (map (\<lambda>t. [real (length t)]) texts)),
      qdrant_search = (\<lambda>calls req.
        if req_limit req < 0 then Inl (Exc QdrantQueryError [] None)
        else if req_vector req = [1]
          then Inr (take (nat (req_limit req)) [hit_content ''1'' 0.9 ''d1''])
        else Inr (take (nat (req_limit req)) [hit_content ''2'' 0.8 ''d2''])),
      md5_hexdigest = (\<lambda>t. t)\<rparr>"

text \<open>The same services with a text embedded as the list of its code points, and with a
  vector index that raises.\<close>

definition char_codes :: "string \<Rightarrow> embedding" where
  "char_codes t = map (\<lambda>c. real (of_char c :: nat)) t"

definition code_point_services :: services where
  "code_point_services =
     example_services\<lparr>aembed_documents := (\<lambda>calls texts. Inr (map char_codes texts))\<rparr>"


text \<open>Services that all raise.\<close>

definition failing_services :: services where
  "failing_services =
     \<lparr>llm_generate = (\<lambda>calls req. LLMRaises (Exc LLMProviderError [] None)),
      aembed_documents = (\<lambda>calls texts. Inl (Exc TransportError [] None)),
      qdrant_search = (\<lambda>calls req. Inl (Exc QdrantQueryError [] None)),
      md5_hexdigest = (\<lambda>t. t)\<rparr>"

text \<open>Services whose every generated text is 1600 characters long (400 tokens).\<close>

definition long_text_services :: services where
  "long_text_services =
     \<lparr>llm_generate = (\<lambda>calls req. LLMResult [[replicate 1600 (CHR ''x'')]]),
      aembed_documents = (\<lambda>calls texts. Inr (map (\<lambda>t. [real (length t)]) texts)),
      qdrant_search = (\<lambda>calls req. Inr []),
      md5_hexdigest = (\<lambda>t. t)\<rparr>"




text \<open>Services that embed the \<open>i\<close>-th text of a batch as \<open>[i]\<close>, whatever the text.\<close>

definition positional_services :: services where
  "positional_services =
     example_services\<lparr>aembed_documents :=
        (\<lambda>calls texts. Inr (map (\<lambda>i. [real i]) [0..<length texts]))\<rparr>"

section \<open>Properties\<close>

subsection \<open>De-duplication and ranking\<close>

lemma set_first_occurrences: "set (first_occurrences xs) = set xs"
  by (induction xs) auto

lemma first_occurrences_snoc:
  "first_occurrences (xs @ [x]) =
     (if x \<in> set xs then first_occurrences xs else first_occurrences xs @ [x])"
  by (induction xs) auto

lemma find_append:
  "find P (xs @ ys) = (case find P xs of None \<Rightarrow> find P ys | Some a \<Rightarrow> Some a)"
  by (induction xs) auto

lemma find_Some_mem: "find P xs = Some x \<Longrightarrow> x \<in> set xs \<and> P x"
  by (induction xs) (auto split: if_splits)

lemma find_None_iff': "find P xs = None \<longleftrightarrow> (\<forall>x \<in> set xs. \<not> P x)"
  by (induction xs) auto

lemma dedup_step_keys:
  "map fst (dedup_step seen r) =
     (if sp_id r \<in> set (map fst seen) then map fst seen else map fst seen @ [sp_id r])"
proof (cases "map_of seen (sp_id r)")
  case None
  then have "sp_id r \<notin> set (map fst seen)"
    by (simp add: map_of_eq_None_iff)
  with None show ?thesis
    by (simp add: dedup_step_def update_keys)
next
  case (Some kept)
  then have "sp_id r \<in> set (map fst seen)"
    by (metis map_of_eq_None_iff option.distinct(1) set_map)
  with Some show ?thesis
    by (simp add: dedup_step_def update_keys)
qed

lemma dedup_step_map_of:
  "map_of (dedup_step seen r) =
     (case map_of seen (sp_id r) of
        None \<Rightarrow> (map_of seen)(sp_id r \<mapsto> r)
      | Some kept \<Rightarrow>
          if score kept < score r then (map_of seen)(sp_id r \<mapsto> r) else map_of seen)"
  by (simp add: dedup_step_def update_conv' split: option.split)

lemma dedup_keys:
  "map fst (foldl dedup_step [] rs) = first_occurrences (map sp_id rs)"
proof (induction rs rule: rev_induct)
  case Nil
  then show ?case by simp
next
  case (snoc x xs)
  then show ?case
    by (simp add: dedup_step_keys first_occurrences_snoc set_first_occurrences)
qed

lemma dedup_entries:
  "map_of (foldl dedup_step [] rs) k = Some v \<Longrightarrow> retained_ok rs k v"
proof (induction rs arbitrary: k v rule: rev_induct)
  case Nil
  then show ?case by simp
next
  case (snoc x xs)
  let ?seen = "foldl dedup_step [] xs"
  have keys: "set (map fst ?seen) = sp_id ` set xs"
    by (simp add: dedup_keys set_first_occurrences)
  show ?case
  proof (cases "map_of ?seen (sp_id x)")
    case None
    then have "sp_id x \<notin> sp_id ` set xs"
      using keys by (metis map_of_eq_None_iff set_map)
    then have fresh: "\<forall>y \<in> set xs. sp_id y \<noteq> sp_id x"
      by (metis image_eqI)
    have new: "map_of (foldl dedup_step [] (xs @ [x])) = (map_of ?seen)(sp_id x \<mapsto> x)"
      using None by (simp add: dedup_step_map_of)
    show ?thesis
    proof (cases "k = sp_id x")
      case True
      with snoc.prems new have "v = x" by simp
      moreover have "find (\<lambda>y. sp_id y = sp_id x \<and> score y = score x) xs = None"
        using fresh by (simp add: find_None_iff')
      ultimately show ?thesis
        using True fresh by (auto simp: retained_ok_def find_append)
    next
      case False
      with snoc.prems new have "map_of ?seen k = Some v" by simp
      then have "retained_ok xs k v" by (rule snoc.IH)
      then show ?thesis
        using False by (auto simp: retained_ok_def find_append)
    qed
  next
    case (Some kept)
    then have kept_ok: "retained_ok xs (sp_id x) kept" by (rule snoc.IH)
    show ?thesis
    proof (cases "score kept < score x")
      case True
      have new: "map_of (foldl dedup_step [] (xs @ [x])) = (map_of ?seen)(sp_id x \<mapsto> x)"
        using Some True by (simp add: dedup_step_map_of)
      show ?thesis
      proof (cases "k = sp_id x")
        case k: True
        with snoc.prems new have "v = x" by simp
        moreover have "find (\<lambda>y. sp_id y = sp_id x \<and> score y = score x) xs = None"
          using kept_ok True by (fastforce simp: find_None_iff' retained_ok_def)
        ultimately show ?thesis
          using k kept_ok True by (fastforce simp: retained_ok_def find_append)
      next
        case False
        with snoc.prems new have "map_of ?seen k = Some v" by simp
        then have "retained_ok xs k v" by (rule snoc.IH)
        then show ?thesis
          using False by (auto simp: retained_ok_def find_append)
      qed
    next
      case False
      have same: "map_of (foldl dedup_step [] (xs @ [x])) = map_of ?seen"
        using Some False by (simp add: dedup_step_map_of)
      with snoc.prems have "map_of ?seen k = Some v" by simp
      then have "retained_ok xs k v" by (rule snoc.IH)
      moreover have "k = sp_id x \<Longrightarrow> v = kept"
        using Some \<open>map_of ?seen k = Some v\<close> by simp
      ultimately show ?thesis
        using False by (auto simp: retained_ok_def find_append)
    qed
  qed
qed

lemma distinct_first_occurrences: "distinct (first_occurrences xs)"
  by (induction xs) (auto simp: set_first_occurrences)

lemma dedup_distinct_keys: "distinct (map fst (foldl dedup_step [] rs))"
  by (simp add: dedup_keys distinct_first_occurrences)

lemma dedup_member:
  assumes "(k, v) \<in> set (foldl dedup_step [] rs)"
  shows "retained_ok rs k v"
proof -
  have "map_of (foldl dedup_step [] rs) k = Some v"
    using assms dedup_distinct_keys by (simp add: map_of_eq_Some_iff)
  then show ?thesis by (rule dedup_entries)
qed

lemma dedup_values_ids:
  "map sp_id (map snd (foldl dedup_step [] rs)) = map fst (foldl dedup_step [] rs)"
proof -
  have "sp_id (snd p) = fst p" if "p \<in> set (foldl dedup_step [] rs)" for p
    using dedup_member [of "fst p" "snd p" rs] that by (simp add: retained_ok_def)
  then show ?thesis by simp
qed

lemma set_py_sorted_desc: "set (py_sorted_desc f xs) = set xs"
  by (simp add: py_sorted_desc_def)

lemma distinct_map_py_sorted_desc:
  "distinct (map g (py_sorted_desc f xs)) = distinct (map g xs)"
  by (simp add: py_sorted_desc_def distinct_map)

lemma py_sorted_desc_sorted:
  "sorted_wrt (\<lambda>x y. f y \<le> f x) (py_sorted_desc f xs)"
proof -
  have "sorted (map f (sort_key f (rev xs)))" by (rule sorted_sort_key)
  then have "sorted_wrt (\<lambda>x y. f x \<le> f y) (sort_key f (rev xs))"
    by (simp add: sorted_map)
  then show ?thesis
    by (simp add: py_sorted_desc_def sorted_wrt_rev)
qed

lemma py_sorted_desc_stable:
  "filter (\<lambda>y. f y = k) (py_sorted_desc f xs) = filter (\<lambda>y. f y = k) xs"
  by (simp add: py_sorted_desc_def rev_filter [symmetric] sort_key_stable)

lemma retained_ok_Max:
  assumes "retained_ok rs k v"
  shows "score v = Max (score ` {x \<in> set rs. sp_id x = k})"
proof -
  from assms have "v \<in> set rs"
    by (auto simp: retained_ok_def dest: find_Some_mem)
  moreover from assms have "sp_id v = k" by (simp add: retained_ok_def)
  ultimately have "score v \<in> score ` {x \<in> set rs. sp_id x = k}" by simp
  moreover have "\<And>s. s \<in> score ` {x \<in> set rs. sp_id x = k} \<Longrightarrow> s \<le> score v"
    using assms by (auto simp: retained_ok_def)
  ultimately show ?thesis
    by (intro Max_eqI [symmetric]) auto
qed

text \<open>
  C1. For every list of hits, the result of \<open>_deduplicate_results\<close> has no two hits with the
  same id; every id of the input is the id of a retained hit; and each retained hit has the
  greatest score among the input hits of its id and is the first hit of the input with that
  id and that score.
\<close>

theorem deduplicate_results_unique_best_first:
  "distinct (map sp_id (deduplicate_results rs)) \<and>
   (\<forall>h \<in> set rs. \<exists>r \<in> set (deduplicate_results rs). sp_id r = sp_id h) \<and>
   (\<forall>r \<in> set (deduplicate_results rs).
      score r = Max (score ` {x \<in> set rs. sp_id x = sp_id r}) \<and>
      find (\<lambda>x. sp_id x = sp_id r \<and> score x = score r) rs = Some r)"
proof (intro conjI ballI)
  show "distinct (map sp_id (deduplicate_results rs))"
    by (simp add: deduplicate_results_def distinct_map_py_sorted_desc
        dedup_values_ids dedup_distinct_keys del: map_map)
next
  fix h assume "h \<in> set rs"
  then have "sp_id h \<in> set (map fst (foldl dedup_step [] rs))"
    by (simp add: dedup_keys set_first_occurrences)
  then have "sp_id h \<in> set (map sp_id (map snd (foldl dedup_step [] rs)))"
    by (simp only: dedup_values_ids)
  then obtain r where "r \<in> set (map snd (foldl dedup_step [] rs))" "sp_id r = sp_id h"
    unfolding set_map [of sp_id] by (metis imageE)
  then show "\<exists>r \<in> set (deduplicate_results rs). sp_id r = sp_id h"
    unfolding deduplicate_results_def set_py_sorted_desc by blast
next
  fix r assume "r \<in> set (deduplicate_results rs)"
  then obtain k where "(k, r) \<in> set (foldl dedup_step [] rs)"
    by (auto simp: deduplicate_results_def set_py_sorted_desc)
  then have ok: "retained_ok rs k r" by (rule dedup_member)
  then have k: "sp_id r = k" by (simp add: retained_ok_def)
  show "score r = Max (score ` {x \<in> set rs. sp_id x = sp_id r})"
    using retained_ok_Max [OF ok] k by simp
  show "find (\<lambda>x. sp_id x = sp_id r \<and> score x = score r) rs = Some r"
    using ok k by (simp add: retained_ok_def)
qed

theorem deduplicate_results_unique_best_first_witness:
  "map sp_id (deduplicate_results example_hits) = [''2'', ''1''] \<and>
   distinct (map sp_id (deduplicate_results example_hits)) \<and>
   score (deduplicate_results example_hits ! 0) =
     Max (score ` {x \<in> set example_hits. sp_id x = sp_id (deduplicate_results example_hits ! 0)}) \<and>
   find (\<lambda>x. sp_id x = sp_id (deduplicate_results example_hits ! 0) \<and>
               score x = score (deduplicate_results example_hits ! 0)) example_hits =
     Some (deduplicate_results example_hits ! 0) \<and>
   payload (deduplicate_results example_hits ! 0) ''text'' = Some (PStr ''c'')"
proof -
  have ids: "map sp_id (deduplicate_results example_hits) = [''2'', ''1'']"
    by code_simp
  then have "length (deduplicate_results example_hits) = 2"
    by (metis length_map length_Cons list.size(3) numeral_2_eq_2)
  then have mem: "deduplicate_results example_hits ! 0 \<in> set (deduplicate_results example_hits)"
    by simp
  have first_kept: "payload (deduplicate_results example_hits ! 0) ''text'' = Some (PStr ''c'')"
    by code_simp
  show ?thesis
    using deduplicate_results_unique_best_first [of example_hits] mem ids first_kept by blast
qed

text \<open>
  C2, as the code has it. The result is in descending order of score. Hits of equal score
  are not ordered by id: they stand in the order in which their ids first occur in the
  input, that is, for every score \<open>s\<close> the ids of the retained hits of score \<open>s\<close>, in result
  order, are a subsequence of the input's ids in first-occurrence order.
\<close>

theorem deduplicate_results_order:
  "sorted_wrt (\<lambda>x y. score y \<le> score x) (deduplicate_results rs) \<and>
   (\<forall>s. subseq (map sp_id (filter (\<lambda>h. score h = s) (deduplicate_results rs)))
          (first_occurrences (map sp_id rs)))"
proof (intro conjI allI)
  show "sorted_wrt (\<lambda>x y. score y \<le> score x) (deduplicate_results rs)"
    by (simp add: deduplicate_results_def py_sorted_desc_sorted)
next
  fix s
  let ?vals = "map snd (foldl dedup_step [] rs)"
  have "filter (\<lambda>h. score h = s) (deduplicate_results rs) = filter (\<lambda>h. score h = s) ?vals"
    by (simp add: deduplicate_results_def py_sorted_desc_stable)
  moreover have "subseq (map sp_id (filter (\<lambda>h. score h = s) ?vals)) (map sp_id ?vals)"
    by (intro subseq_map subseq_filter_left)
  moreover have "map sp_id ?vals = first_occurrences (map sp_id rs)"
    by (simp only: dedup_values_ids dedup_keys)
  ultimately show "subseq (map sp_id (filter (\<lambda>h. score h = s) (deduplicate_results rs)))
          (first_occurrences (map sp_id rs))"
    by simp
qed

text \<open>Ids \<open>2\<close> and \<open>1\<close> with the same score, read in that order, come out in that order:
  the result is not in ascending order of id among equal scores.\<close>

theorem deduplicate_results_order_counterexample:
  "\<not> sorted_wrt (\<lambda>x y. score y < score x \<or> (score x = score y \<and> sp_id x \<le> sp_id y))
        (deduplicate_results [hit ''2'' 0.5, hit ''1'' 0.5])"
  by code_simp

subsection \<open>Contextual compression\<close>

lemma compress_loop_inv:
  "compress_loop sv cp query docs (acc, tot, w) = (out, tot2, w') \<Longrightarrow>
   (\<forall>d \<in> set acc. page_content d \<noteq> ''NOT_RELEVANT'') \<Longrightarrow> tot = tokens_of acc \<Longrightarrow>
   (\<forall>d \<in> set out. page_content d \<noteq> ''NOT_RELEVANT'') \<and> tot2 = tokens_of out \<and>
   length out \<le> length acc + length docs"
proof (induction docs arbitrary: acc tot w)
  case Nil
  then show ?case by auto
next
  case (Cons doc docs)
  show ?case
  proof (cases "tot \<ge> max_context_length cp")
    case True
    with Cons.prems show ?thesis by auto
  next
    case False
    obtain c w1 where cs: "compress_single_document sv cp (page_content doc) query w = (c, w1)"
      by (cases "compress_single_document sv cp (page_content doc) query w")
    show ?thesis
    proof (cases "c = ''NOT_RELEVANT''")
      case True
      with Cons.prems(1) False cs
      have "compress_loop sv cp query docs (acc, tot, w1) = (out, tot2, w')" by simp
      from Cons.IH [OF this Cons.prems(2,3)] show ?thesis by simp
    next
      case nr: False
      let ?acc = "acc @ [compressed_document doc c]"
      from Cons.prems(1) False cs nr
      have run: "compress_loop sv cp query docs (?acc, tot + int (length c) div 4, w1)
                 = (out, tot2, w')" by (simp add: Let_def)
      have a: "\<forall>d \<in> set ?acc. page_content d \<noteq> ''NOT_RELEVANT''"
        using Cons.prems(2) nr by (auto simp: compressed_document_def)
      have b: "tot + int (length c) div 4 = tokens_of ?acc"
        using Cons.prems(3) by (simp add: tokens_of_def compressed_document_def)
      from Cons.IH [OF run a b] show ?thesis by simp
    qed
  qed
qed

lemma compress_loop_stop:
  "max_context_length cp \<le> tot \<Longrightarrow> compress_loop sv cp query docs (acc, tot, w) = (acc, tot, w)"
  by (cases docs) simp_all

lemma compress_loop_keep:
  assumes "tot < max_context_length cp"
    and "compress_single_document sv cp (page_content doc) query w = (c, w1)"
    and "c \<noteq> ''NOT_RELEVANT''"
  shows "compress_loop sv cp query (doc # docs) (acc, tot, w) =
         compress_loop sv cp query docs
           (acc @ [compressed_document doc c], tot + int (length c) div 4, w1)"
  using assms by (simp add: Let_def)

lemma compress_loop_drop:
  assumes "tot < max_context_length cp"
    and "compress_single_document sv cp (page_content doc) query w = (''NOT_RELEVANT'', w1)"
  shows "compress_loop sv cp query (doc # docs) (acc, tot, w) =
         compress_loop sv cp query docs (acc, tot, w1)"
  using assms by simp

lemma strip_no_space:
  assumes "s \<noteq> []" "\<not> is_space (hd s)" "\<not> is_space (last s)"
  shows "strip s = s"
proof -
  from assms have "dropWhile is_space s = s"
    by (cases s) auto
  moreover from assms have "dropWhile is_space (rev s) = rev s"
    by (cases "rev s") (auto simp: last_rev [symmetric] simp del: last_rev)
  ultimately show ?thesis by (simp add: strip_def)
qed

lemma compress_loop_three:
  assumes budget: "max_context_length cp = 1000"
    and s1: "compress_single_document sv cp (page_content d1) query w = (c1, w1)"
    and s2: "compress_single_document sv cp (page_content d2) query w1 = (c2, w2)"
    and s3: "compress_single_document sv cp (page_content d3) query w2 = (c3, w3)"
    and k1: "c1 \<noteq> ''NOT_RELEVANT''" "int (length c1) div 4 = 400"
    and k2: "c2 \<noteq> ''NOT_RELEVANT''" "int (length c2) div 4 = 400"
    and k3: "c3 \<noteq> ''NOT_RELEVANT''" "int (length c3) div 4 = 400"
  shows "compress_loop sv cp query (d1 # d2 # d3 # others) ([], 0, w) =
         ([compressed_document d1 c1, compressed_document d2 c2, compressed_document d3 c3],
          1200, w3)"
proof -
  have "compress_loop sv cp query (d1 # d2 # d3 # others) ([], 0, w) =
        compress_loop sv cp query (d2 # d3 # others) ([compressed_document d1 c1], 400, w1)"
    using compress_loop_keep [OF _ s1 k1(1), of 0 "d2 # d3 # others" "[]"] budget k1(2) by simp
  also have "\<dots> = compress_loop sv cp query (d3 # others)
        ([compressed_document d1 c1, compressed_document d2 c2], 800, w2)"
    using compress_loop_keep [OF _ s2 k2(1), of 400 "d3 # others" "[compressed_document d1 c1]"]
      budget k2(2) by simp
  also have "\<dots> = compress_loop sv cp query others
        ([compressed_document d1 c1, compressed_document d2 c2, compressed_document d3 c3],
         1200, w3)"
    using compress_loop_keep [OF _ s3 k3(1), of 800 others
        "[compressed_document d1 c1, compressed_document d2 c2]"]
      budget k3(2) by simp
  also have "\<dots> = ([compressed_document d1 c1, compressed_document d2 c2,
                     compressed_document d3 c3], 1200, w3)"
    using budget by (simp add: compress_loop_stop)
  finally show ?thesis .
qed

lemma long_text_compress:
  "compress_single_document long_text_services cp t query w =
     (replicate 1600 (CHR ''x''),
      w\<lparr>llm_calls := llm_calls w @ [CompressionRequest query t (use_fallback_model cp)]\<rparr>)"
proof -
  have "\<not> is_space (CHR ''x'')" by (simp add: is_space_def)
  then have "strip (replicate 1600 (CHR ''x'')) = replicate 1600 (CHR ''x'')"
    by (intro strip_no_space) simp_all
  then show ?thesis
    by (simp add: compress_single_document_def call_llm_def long_text_services_def first_text_def)
qed

lemma long_text_not_sentinel: "replicate 1600 (CHR ''x'') \<noteq> ''NOT_RELEVANT''"
proof -
  have "length (replicate 1600 (CHR ''x'')) \<noteq> length ''NOT_RELEVANT''" by simp
  then show ?thesis by metis
qed

lemma compressed_document_id:
  "metadata (compressed_document d c) ''id'' = metadata d ''id''"
  by (simp add: compressed_document_def)

lemma compress_documents_no_sentinel:
  assumes "strip query \<noteq> []"
  shows "\<forall>d \<in> set (fst (compress_documents sv cp documents query w)).
           page_content d \<noteq> ''NOT_RELEVANT''"
proof -
  obtain out tot w' where run: "compress_loop sv cp query documents ([], 0, w) = (out, tot, w')"
    by (cases "compress_loop sv cp query documents ([], 0, w)")
  from compress_loop_inv [OF run] have "\<forall>d \<in> set out. page_content d \<noteq> ''NOT_RELEVANT''"
    by (simp add: tokens_of_def)
  with run assms show ?thesis
    by (simp add: compress_documents_def del: compress_loop.simps)
qed

lemma compress_loop_total:
  "fst (snd (compress_loop sv cp query documents ([], 0, w))) =
     tokens_of (fst (compress_loop sv cp query documents ([], 0, w)))"
proof -
  obtain out tot w' where run: "compress_loop sv cp query documents ([], 0, w) = (out, tot, w')"
    by (cases "compress_loop sv cp query documents ([], 0, w)")
  from compress_loop_inv [OF run] have "tot = tokens_of out"
    by (simp add: tokens_of_def)
  with run show ?thesis by simp
qed

lemma retrieve_try_Inr:
  assumes ok: "retrieve_try sv st pl query mf emq w = (Inr docs, w')"
  obtains queries w1 embs w2 qf all_results w3 converted w4 where
    "expand_queries sv st query emq w = (Inr queries, w1)"
    "embed_documents sv queries True w1 = (Inr embs, w2)"
    "build_qdrant_filter mf = Inr qf"
    "search_all sv pl qf (zip queries embs) w2 = (Inr all_results, w3)"
    "convert_to_documents (deduplicate_results all_results) = Inr converted"
    "compress_if_enabled sv st pl converted query w3 = (docs, w4)"
proof -
  obtain r1 w1 where g: "expand_queries sv st query emq w = (r1, w1)"
    by (cases "expand_queries sv st query emq w")
  show thesis
  proof (cases r1)
    case (Inl x)
    with ok g show thesis by (simp add: retrieve_try_def)
  next
    case r1: (Inr queries)
    obtain r2 w2 where e: "embed_documents sv queries True w1 = (r2, w2)"
      by (cases "embed_documents sv queries True w1")
    show thesis
    proof (cases r2)
      case (Inl x)
      with ok g r1 e show thesis by (simp add: retrieve_try_def)
    next
      case r2: (Inr embs)
      show thesis
      proof (cases "build_qdrant_filter mf")
        case (Inl x)
        with ok g r1 e r2 show thesis by (simp add: retrieve_try_def)
      next
        case f: (Inr qf)
        obtain r3 w3 where s: "search_all sv pl qf (zip queries embs) w2 = (r3, w3)"
          by (cases "search_all sv pl qf (zip queries embs) w2")
        show thesis
        proof (cases r3)
          case (Inl x)
          with ok g r1 e r2 f s show thesis by (simp add: retrieve_try_def)
        next
          case r3: (Inr all_results)
          show thesis
          proof (cases "convert_to_documents (deduplicate_results all_results)")
            case (Inl x)
            with ok g r1 e r2 f s r3 show thesis by (simp add: retrieve_try_def)
          next
            case c: (Inr converted)
            obtain documents w4 where
              d: "compress_if_enabled sv st pl converted query w3 = (documents, w4)"
              by (cases "compress_if_enabled sv st pl converted query w3")
            from ok g r1 e r2 f s r3 c d have "documents = docs"
              by (simp add: retrieve_try_def split: if_splits sum.splits)
            with g r1 e r2 f s r3 c d that show thesis by blast
          qed
        qed
      qed
    qed
  qed
qed

lemma retrieve_Inr:
  "fst (retrieve sv st pl query mf emq w) = Inr docs \<Longrightarrow>
   \<exists>w'. retrieve_try sv st pl query mf emq w = (Inr docs, w')"
  by (auto simp: retrieve_def split: prod.splits sum.splits)

lemma retrieve_no_sentinel:
  assumes "strip query \<noteq> []" and "enable_compression pl"
    and "fst (retrieve sv st pl query mf emq w) = Inr docs"
  shows "\<forall>d \<in> set docs. page_content d \<noteq> ''NOT_RELEVANT''"
proof -
  from assms(3) obtain w' where "retrieve_try sv st pl query mf emq w = (Inr docs, w')"
    by (auto dest: retrieve_Inr)
  then obtain converted w3 w4 where
    "compress_if_enabled sv st pl converted query w3 = (docs, w4)"
    by (rule retrieve_try_Inr)
  with assms(2) have "docs = fst (compress_documents sv (global_compressor st) converted query w3)
      \<or> docs = []"
    by (cases converted) (auto simp: nonempty_def compress_if_enabled_def)
  then show ?thesis
    using compress_documents_no_sentinel [OF assms(1)] by auto
qed

text \<open>
  C3. The code departs from the claim at the claim's own input. With budget 1000 and three
  documents whose compressed contents cost 400 tokens each, none of them the sentinel,
  \<open>compress_documents\<close> returns all three documents, 1200 tokens in total, more than
  \<open>max_context_length\<close>: the loop tests \<open>total_tokens >= max_context_length\<close> before it
  processes a document (800 before the third) and never looks at the cost of the document it
  is about to add.
\<close>

theorem compress_documents_exceeds_budget:
  "map (\<lambda>d. metadata d ''id'')
     (fst (compress_documents long_text_services budget_1000
        [doc_of ''d1'', doc_of ''d2'', doc_of ''d3''] ''q'' example_world))
     = [Some (PStr ''d1''), Some (PStr ''d2''), Some (PStr ''d3'')] \<and>
   tokens_of (fst (compress_documents long_text_services budget_1000
        [doc_of ''d1'', doc_of ''d2'', doc_of ''d3''] ''q'' example_world)) = 1200 \<and>
   max_context_length budget_1000 <
     tokens_of (fst (compress_documents long_text_services budget_1000
        [doc_of ''d1'', doc_of ''d2'', doc_of ''d3''] ''q'' example_world))"
proof -
  let ?c = "replicate 1600 (CHR ''x'')"
  let ?docs = "[doc_of ''d1'', doc_of ''d2'', doc_of ''d3'']"
  have b: "max_context_length budget_1000 = 1000" by (simp add: budget_1000_def)
  have q: "strip ''q'' \<noteq> []" by code_simp
  have k: "int (length ?c) div 4 = 400" by simp
  have run: "fst (compress_loop long_text_services budget_1000 ''q'' ?docs
               ([], 0, example_world)) =
             [compressed_document (doc_of ''d1'') ?c, compressed_document (doc_of ''d2'') ?c,
              compressed_document (doc_of ''d3'') ?c]"
    unfolding compress_loop_three [where others = "[]" and query = "''q''" and w = example_world
        and ?d1.0 = "doc_of ''d1''" and ?d2.0 = "doc_of ''d2''" and ?d3.0 = "doc_of ''d3''",
        OF b long_text_compress long_text_compress long_text_compress
        long_text_not_sentinel k long_text_not_sentinel k long_text_not_sentinel k]
    by simp
  have "fst (compress_documents long_text_services budget_1000 ?docs ''q'' example_world) =
        fst (compress_loop long_text_services budget_1000 ''q'' ?docs ([], 0, example_world))"
    using q by (simp add: compress_documents_def nonempty_def split: prod.splits
        del: compress_loop.simps)
  with run have out: "fst (compress_documents long_text_services budget_1000 ?docs ''q''
        example_world) =
      [compressed_document (doc_of ''d1'') ?c, compressed_document (doc_of ''d2'') ?c,
       compressed_document (doc_of ''d3'') ?c]"
    by simp
  have ids: "map (\<lambda>d. metadata d ''id'')
      [compressed_document (doc_of ''d1'') ?c, compressed_document (doc_of ''d2'') ?c,
       compressed_document (doc_of ''d3'') ?c] =
      [Some (PStr ''d1''), Some (PStr ''d2''), Some (PStr ''d3'')]"
    by (simp add: compressed_document_id doc_of_def)
  have toks: "tokens_of
      [compressed_document (doc_of ''d1'') ?c, compressed_document (doc_of ''d2'') ?c,
       compressed_document (doc_of ''d3'') ?c] = 1200"
    by (simp add: tokens_of_def compressed_document_def)
  show ?thesis
    unfolding out using ids toks b by simp
qed

text \<open>
  C8. For a query that is not blank (so that documents are compressed at all): no document
  returned by \<open>compress_documents\<close> has the sentinel \<open>NOT_RELEVANT\<close> as its content; the
  running token total at the end of the loop is the token estimate of the retained documents
  alone; a document within budget whose compression result is the sentinel leaves the list of
  retained documents and the running total as they were; and with compression enabled no
  document returned by \<open>retrieve\<close> has the sentinel as its content.
\<close>

theorem not_relevant_dropped:
  assumes "strip query \<noteq> []"
  shows "(\<forall>d \<in> set (fst (compress_documents sv cp documents query w)).
            page_content d \<noteq> ''NOT_RELEVANT'') \<and>
         fst (snd (compress_loop sv cp query documents ([], 0, w))) =
           tokens_of (fst (compress_loop sv cp query documents ([], 0, w))) \<and>
         (tot < max_context_length cp \<longrightarrow>
          fst (compress_single_document sv cp (page_content doc) query w) = ''NOT_RELEVANT'' \<longrightarrow>
          compress_loop sv cp query (doc # docs) (acc, tot, w) =
            compress_loop sv cp query docs
              (acc, tot, snd (compress_single_document sv cp (page_content doc) query w))) \<and>
         (enable_compression pl \<longrightarrow>
          (\<forall>result. fst (retrieve sv st pl query mf emq w) = Inr result \<longrightarrow>
             (\<forall>d \<in> set result. page_content d \<noteq> ''NOT_RELEVANT'')))"
proof (intro conjI impI allI)
  show "\<forall>d \<in> set (fst (compress_documents sv cp documents query w)).
          page_content d \<noteq> ''NOT_RELEVANT''"
    using assms by (rule compress_documents_no_sentinel)
  show "fst (snd (compress_loop sv cp query documents ([], 0, w))) =
          tokens_of (fst (compress_loop sv cp query documents ([], 0, w)))"
    by (rule compress_loop_total)
next
  assume "tot < max_context_length cp"
    and "fst (compress_single_document sv cp (page_content doc) query w) = ''NOT_RELEVANT''"
  then show "compress_loop sv cp query (doc # docs) (acc, tot, w) =
            compress_loop sv cp query docs
              (acc, tot, snd (compress_single_document sv cp (page_content doc) query w))"
    by (intro compress_loop_drop) (simp_all add: prod_eq_iff)
next
  fix result
  assume "enable_compression pl" and "fst (retrieve sv st pl query mf emq w) = Inr result"
  with assms show "\<forall>d \<in> set result. page_content d \<noteq> ''NOT_RELEVANT''"
    by (rule retrieve_no_sentinel)
qed

theorem not_relevant_dropped_witness:
  "strip ''q'' \<noteq> [] \<and>
   fst (compress_single_document example_services budget_1000 (page_content (doc_of ''d1''))
          ''q'' example_world) = ''NOT_RELEVANT'' \<and>
   map page_content (fst (compress_documents example_services budget_1000
      [doc_of ''d1'', doc_of ''d2''] ''q'' example_world)) = [''keep''] \<and>
   page_content (hd (fst (compress_documents example_services budget_1000
      [doc_of ''d1'', doc_of ''d2''] ''q'' example_world))) \<noteq> ''NOT_RELEVANT'' \<and>
   compress_loop example_services budget_1000 ''q'' [doc_of ''d1'', doc_of ''d2'']
      ([], 0, example_world) =
     compress_loop example_services budget_1000 ''q'' [doc_of ''d2'']
      ([], 0, snd (compress_single_document example_services budget_1000
                     (page_content (doc_of ''d1'')) ''q'' example_world)) \<and>
   enable_compression (RAGPipeline_init example_settings ''courses'' (Some 1) None None) \<and>
   map_sum (\<lambda>e. e) (map page_content)
     (fst (retrieve example_services example_settings
        (RAGPipeline_init example_settings ''courses'' (Some 1) None None)
        ''q'' None True example_world)) = Inr [''keep'']"
proof -
  let ?out = "fst (compress_documents example_services budget_1000
      [doc_of ''d1'', doc_of ''d2''] ''q'' example_world)"
  have q: "strip ''q'' \<noteq> []" by code_simp
  have s: "fst (compress_single_document example_services budget_1000
             (page_content (doc_of ''d1'')) ''q'' example_world) = ''NOT_RELEVANT''"
    by code_simp
  have kept: "map page_content ?out = [''keep'']" by code_simp
  then have "?out \<noteq> []" by auto
  then have mem: "hd ?out \<in> set ?out" by simp
  have b: "0 < max_context_length budget_1000" by (simp add: budget_1000_def)
  have en: "enable_compression (RAGPipeline_init example_settings ''courses'' (Some 1) None None)"
    by code_simp
  have r: "map_sum (\<lambda>e. e) (map page_content)
     (fst (retrieve example_services example_settings
        (RAGPipeline_init example_settings ''courses'' (Some 1) None None)
        ''q'' None True example_world)) = Inr [''keep'']"
    by code_simp
  show ?thesis
    using not_relevant_dropped [OF q, where sv = example_services and cp = budget_1000
        and documents = "[doc_of ''d1'', doc_of ''d2'']" and w = example_world and tot = 0
        and doc = "doc_of ''d1''" and docs = "[doc_of ''d2'']" and acc = "[]"]
      q s kept mem b en r
    by blast
qed

text \<open>
  C10. \<open>compress_documents\<close> on an empty document list returns the empty list and leaves the
  state, and with it the record of generation calls, as it was; on a query that is empty or
  only whitespace it returns the input documents unchanged, again without any call.
\<close>

theorem compress_documents_trivial_inputs:
  "compress_documents sv cp [] query w = ([], w) \<and>
   (strip query = [] \<longrightarrow> compress_documents sv cp documents query w = (documents, w))"
  by (cases documents) (simp_all add: compress_documents_def nonempty_def)

theorem compress_documents_trivial_inputs_witness:
  "strip ''  '' = [] \<and>
   compress_documents long_text_services budget_1000 [] ''q'' example_world = ([], example_world) \<and>
   compress_documents long_text_services budget_1000 [doc_of ''d1'', doc_of ''d2''] ''  ''
     example_world = ([doc_of ''d1'', doc_of ''d2''], example_world)"
proof -
  have "strip ''  '' = []" by code_simp
  then show ?thesis
    using compress_documents_trivial_inputs
      [where sv = long_text_services and cp = budget_1000 and w = example_world
         and query = "''  ''" and documents = "[doc_of ''d1'', doc_of ''d2'']"]
      compress_documents_trivial_inputs
      [where sv = long_text_services and cp = budget_1000 and w = example_world
         and query = "''q''"]
    by blast
qed

subsection \<open>Query expansion\<close>

lemma generate_queries_blank:
  "strip original_query = [] \<Longrightarrow>
   generate_queries sv mq original_query w = (Inl (Exc RetrievalError [] None), w)"
  by (simp add: generate_queries_def)

lemma generate_queries_call:
  "strip original_query \<noteq> [] \<Longrightarrow>
   llm_calls (snd (generate_queries sv mq original_query w)) =
     llm_calls w @ [VariationsRequest (num_variations mq) original_query]"
  by (simp add: generate_queries_def call_llm_def Let_def split: llm_outcome.splits sum.splits)

lemma generate_queries_failed:
  assumes "strip original_query \<noteq> []"
    and "generation_failed
           (llm_generate sv (llm_calls w) (VariationsRequest (num_variations mq) original_query))"
  shows "fst (generate_queries sv mq original_query w) = Inr [original_query]"
  using assms
  by (simp add: generate_queries_def call_llm_def generation_failed_def
      split: llm_outcome.splits sum.splits)

lemma py_slice_to_Cons:
  "0 \<le> n \<Longrightarrow> py_slice_to (n + 1) (x # xs) = x # take (nat n) xs"
  by (simp add: py_slice_to_def nat_add_distrib)

lemma generate_queries_cases:
  assumes "strip original_query \<noteq> []" and "0 \<le> num_variations mq"
  shows "\<exists>vs. fst (generate_queries sv mq original_query w) =
           Inr (original_query # take (nat (num_variations mq))
                  (filter (\<lambda>var. var \<noteq> original_query) vs))"
proof (cases "generation_failed
    (llm_generate sv (llm_calls w) (VariationsRequest (num_variations mq) original_query))")
  case True
  with assms(1) have "fst (generate_queries sv mq original_query w) = Inr [original_query]"
    by (rule generate_queries_failed)
  then show ?thesis by (intro exI [of _ "[]"]) simp
next
  case False
  then obtain t where "fst (generate_queries sv mq original_query w) =
     Inr (py_slice_to (num_variations mq + 1)
       (original_query # filter (\<lambda>var. var \<noteq> original_query)
          (map remove_numbering (parse_variations t))))"
    using assms(1)
    by (auto simp: generate_queries_def call_llm_def generation_failed_def Let_def
        split: llm_outcome.splits sum.splits)
  then show ?thesis
    using assms(2) by (auto simp: py_slice_to_Cons)
qed

text \<open>
  C6. For every non-empty query: if \<open>generate_queries\<close> makes its generation call (the call
  \<open>req\<close> is what the run adds to the record of calls) and that call fails, by raising or by
  returning a result without \<open>generations[0][0]\<close>, then \<open>generate_queries\<close> returns
  exactly the one-element list of the original query; it returns, it does not raise.
\<close>

theorem generate_queries_soft_failure:
  assumes "original_query \<noteq> []"
    and "llm_calls (snd (generate_queries sv mq original_query w)) = llm_calls w @ [req]"
    and "generation_failed (llm_generate sv (llm_calls w) req)"
  shows "fst (generate_queries sv mq original_query w) = Inr [original_query]"
proof -
  have nb: "strip original_query \<noteq> []"
  proof
    assume "strip original_query = []"
    then have "snd (generate_queries sv mq original_query w) = w"
      by (simp add: generate_queries_blank)
    with assms(2) show False by simp
  qed
  with assms(2) have "req = VariationsRequest (num_variations mq) original_query"
    by (simp add: generate_queries_call)
  with nb assms(3) show ?thesis
    by (simp add: generate_queries_failed)
qed

theorem generate_queries_soft_failure_witness:
  "''recursion'' \<noteq> [] \<and>
   llm_calls (snd (generate_queries failing_services \<lparr>num_variations = 3\<rparr> ''recursion''
      example_world)) = llm_calls example_world @ [VariationsRequest 3 ''recursion''] \<and>
   generation_failed (llm_generate failing_services (llm_calls example_world)
      (VariationsRequest 3 ''recursion'')) \<and>
   fst (generate_queries failing_services \<lparr>num_variations = 3\<rparr> ''recursion'' example_world) =
     Inr [''recursion'']"
proof -
  have a: "''recursion'' \<noteq> []" by simp
  have b: "llm_calls (snd (generate_queries failing_services \<lparr>num_variations = 3\<rparr> ''recursion''
      example_world)) = llm_calls example_world @ [VariationsRequest 3 ''recursion'']"
    by code_simp
  have c: "generation_failed (llm_generate failing_services (llm_calls example_world)
      (VariationsRequest 3 ''recursion''))"
    by code_simp
  from generate_queries_soft_failure [OF a b c] a b c show ?thesis by blast
qed

text \<open>
  C7, as the code has it. For every query that is not blank and every answer of the
  generation call, when \<open>num_variations\<close> is not negative, the list returned by
  \<open>generate_queries\<close> has the original query as its first element, at most
  \<open>num_variations\<close> further elements, and none of these equals the original query. Variations
  that equal each other are all kept.
\<close>

theorem generate_queries_shape:
  assumes "strip original_query \<noteq> []" and "0 \<le> num_variations mq"
  shows "\<exists>qs. fst (generate_queries sv mq original_query w) = Inr (original_query # qs) \<and>
           int (length qs) \<le> num_variations mq \<and> original_query \<notin> set qs"
proof -
  from generate_queries_cases [OF assms] obtain vs where
    r: "fst (generate_queries sv mq original_query w) =
           Inr (original_query # take (nat (num_variations mq))
                  (filter (\<lambda>var. var \<noteq> original_query) vs))" ..
  let ?qs = "take (nat (num_variations mq)) (filter (\<lambda>var. var \<noteq> original_query) vs)"
  have "int (length ?qs) \<le> num_variations mq" using assms(2) by simp
  moreover have "original_query \<notin> set ?qs" by (auto dest: in_set_takeD)
  ultimately show ?thesis using r by blast
qed

theorem generate_queries_shape_witness:
  "strip ''q'' \<noteq> [] \<and> (0::int) \<le> num_variations \<lparr>num_variations = 3\<rparr> \<and>
   fst (generate_queries example_services \<lparr>num_variations = 3\<rparr> ''q'' example_world) =
     Inr (''q'' # [''xy'', ''xy'']) \<and>
   int (length [''xy'', ''xy'']) \<le> num_variations \<lparr>num_variations = 3\<rparr> \<and>
   ''q'' \<notin> set [''xy'', ''xy'']"
proof -
  have q: "strip ''q'' \<noteq> []" by code_simp
  have n: "(0::int) \<le> num_variations \<lparr>num_variations = 3\<rparr>" by simp
  have e: "fst (generate_queries example_services \<lparr>num_variations = 3\<rparr> ''q'' example_world) =
     Inr (''q'' # [''xy'', ''xy''])" by code_simp
  from generate_queries_shape [OF q n, of example_services example_world] e q n
  show ?thesis by auto
qed

text \<open>The generated lines \<open>1. xy\<close> and \<open>xy\<close> both become the variation \<open>xy\<close>, and the
  result holds it twice.\<close>

theorem generate_queries_shape_counterexample:
  "fst (generate_queries example_services \<lparr>num_variations = 3\<rparr> ''q'' example_world) =
     Inr [''q'', ''xy'', ''xy''] \<and> \<not> distinct [''q'', ''xy'', ''xy'']"
  by code_simp

subsection \<open>Embedding with the cache\<close>

lemma partition_texts_eq:
  "partition_texts h c uc (enumerate n texts) =
     (map (\<lambda>t. the (c (h t))) (filter (\<lambda>t. uc \<and> c (h t) \<noteq> None) texts),
      filter (\<lambda>t. \<not> (uc \<and> c (h t) \<noteq> None)) texts,
      map fst (filter (\<lambda>p. \<not> (uc \<and> c (h (snd p)) \<noteq> None)) (enumerate n texts)))"
  by (induction texts arbitrary: n) (auto split: option.splits)

lemma index_in_partition:
  "i \<in> set (map fst (filter (\<lambda>p. P (snd p)) (enumerate n xs))) \<longleftrightarrow>
     n \<le> i \<and> i < n + length xs \<and> P (xs ! (i - n))"
  by (force simp: in_set_enumerate_eq image_iff)

lemma merge_results_positions:
  assumes "\<And>j. j < length suf \<Longrightarrow> (n + j \<in> set idx) = (\<not> P (suf ! j))"
    and "length vs = length (filter (\<lambda>t. \<not> P t) suf)"
  shows "\<exists>r. merge_results idx [n..<n + length suf] vs (map cv (filter P suf)) = Inr r \<and>
             length r = length suf \<and>
             (\<forall>i < length suf.
                r ! i = (if P (suf ! i) then cv (suf ! i)
                         else vs ! length (filter (\<lambda>t. \<not> P t) (take i suf))))"
  using assms
proof (induction suf arbitrary: n vs)
  case Nil
  then show ?case by simp
next
  case (Cons t suf)
  have "n < n + length (t # suf)" by simp
  from upt_conv_Cons [OF this]
  have range: "[n..<n + length (t # suf)] = n # [Suc n..<Suc n + length suf]" by simp
  have head: "(n \<in> set idx) = (\<not> P t)"
    using Cons.prems(1) [of 0] by simp
  have tail: "\<And>j. j < length suf \<Longrightarrow> (Suc n + j \<in> set idx) = (\<not> P (suf ! j))"
    using Cons.prems(1) [of "Suc j" for j] by simp
  show ?case
  proof (cases "P t")
    case True
    with Cons.prems(2) have len: "length vs = length (filter (\<lambda>t. \<not> P t) suf)" by simp
    from Cons.IH [OF tail len] obtain r where
      r: "merge_results idx [Suc n..<Suc n + length suf] vs (map cv (filter P suf)) = Inr r"
        "length r = length suf"
        "\<forall>i < length suf. r ! i = (if P (suf ! i) then cv (suf ! i)
                         else vs ! length (filter (\<lambda>t. \<not> P t) (take i suf)))"
      by blast
    have m: "merge_results idx [n..<n + length (t # suf)] vs (map cv (filter P (t # suf))) =
          Inr (cv t # r)"
      using True head r(1)
      by (simp only: range merge_results.simps filter.simps list.map if_True if_False
          list.case sum.case simp_thms)
    have "\<forall>i < length (t # suf). (cv t # r) ! i =
            (if P ((t # suf) ! i) then cv ((t # suf) ! i)
             else vs ! length (filter (\<lambda>t. \<not> P t) (take i (t # suf))))"
    proof (intro allI impI)
      fix i assume "i < length (t # suf)"
      then show "(cv t # r) ! i =
            (if P ((t # suf) ! i) then cv ((t # suf) ! i)
             else vs ! length (filter (\<lambda>t. \<not> P t) (take i (t # suf))))"
        using True r(3) by (cases i) simp_all
    qed
    with m r(2) show ?thesis by simp
  next
    case False
    with Cons.prems(2) obtain v vs' where vs: "vs = v # vs'"
      and len: "length vs' = length (filter (\<lambda>t. \<not> P t) suf)"
      by (cases vs) simp_all
    from Cons.IH [OF tail len] obtain r where
      r: "merge_results idx [Suc n..<Suc n + length suf] vs' (map cv (filter P suf)) = Inr r"
        "length r = length suf"
        "\<forall>i < length suf. r ! i = (if P (suf ! i) then cv (suf ! i)
                         else vs' ! length (filter (\<lambda>t. \<not> P t) (take i suf)))"
      by blast
    have m: "merge_results idx [n..<n + length (t # suf)] vs (map cv (filter P (t # suf))) =
          Inr (v # r)"
      using False head r(1) vs
      by (simp only: range merge_results.simps filter.simps list.map if_True if_False
          list.case sum.case simp_thms)
    have "\<forall>i < length (t # suf). (v # r) ! i =
            (if P ((t # suf) ! i) then cv ((t # suf) ! i)
             else vs ! length (filter (\<lambda>t. \<not> P t) (take i (t # suf))))"
    proof (intro allI impI)
      fix i assume "i < length (t # suf)"
      then show "(v # r) ! i =
            (if P ((t # suf) ! i) then cv ((t # suf) ! i)
             else vs ! length (filter (\<lambda>t. \<not> P t) (take i (t # suf))))"
        using False r(3) vs by (cases i) simp_all
    qed
    with m r(2) show ?thesis by simp
  qed
qed

lemma embed_documents_attempt_positions:
  assumes "uncached_texts sv w use_cache texts \<noteq> [] \<longrightarrow>
           aembed_documents sv (embed_calls w) (uncached_texts sv w use_cache texts) = Inr vs \<and>
           length vs = length (uncached_texts sv w use_cache texts)"
  shows "\<exists>result.
           fst (embed_documents_attempt sv texts use_cache w) = Inr result \<and>
           length result = length texts \<and>
           (\<forall>i < length texts.
              result ! i =
                (if is_cached sv w use_cache (texts ! i)
                 then the (emb_cache w (md5_hexdigest sv (texts ! i)))
                 else vs ! length (uncached_texts sv w use_cache (take i texts)))) \<and>
           embed_calls (snd (embed_documents_attempt sv texts use_cache w)) =
             embed_calls w @
               (if uncached_texts sv w use_cache texts = [] then []
                else [uncached_texts sv w use_cache texts])"
proof (cases "texts = []")
  case True
  then show ?thesis
    by (simp add: embed_documents_attempt_def uncached_texts_def)
next
  case False
  let ?P = "\<lambda>t. use_cache \<and> emb_cache w (md5_hexdigest sv t) \<noteq> None"
  let ?idx = "map fst (filter (\<lambda>p. \<not> ?P (snd p)) (enumerate 0 texts))"
  let ?cv = "\<lambda>t. the (emb_cache w (md5_hexdigest sv t))"
  have part: "partition_texts (md5_hexdigest sv) (emb_cache w) use_cache (enumerate 0 texts) =
     (map ?cv (filter ?P texts), filter (\<lambda>t. \<not> ?P t) texts, ?idx)"
    by (rule partition_texts_eq)
  have un: "uncached_texts sv w use_cache ts = filter (\<lambda>t. \<not> ?P t) ts" for ts
    by (simp add: uncached_texts_def is_cached_def)
  show ?thesis
  proof (cases "filter (\<lambda>t. \<not> ?P t) texts = []")
    case True
    then have all: "\<forall>t \<in> set texts. ?P t"
      by (simp add: filter_empty_conv)
    then have "filter ?P texts = texts" by (simp add: filter_id_conv)
    moreover from all False have use_cache by (cases texts) auto
    ultimately show ?thesis
      using True False part un all
      by (simp add: embed_documents_attempt_def is_cached_def)
  next
    case ne: False
    have idx: "\<And>j. j < length texts \<Longrightarrow> (0 + j \<in> set ?idx) = (\<not> ?P (texts ! j))"
      using index_in_partition [of _ "\<lambda>t. \<not> ?P t" 0 texts] by simp
    from assms ne un have svc: "aembed_documents sv (embed_calls w)
          (filter (\<lambda>t. \<not> ?P t) texts) = Inr vs"
      and len: "length vs = length (filter (\<lambda>t. \<not> ?P t) texts)"
      by simp_all
    from merge_results_positions [OF idx len, of ?cv] obtain r where
      r: "merge_results ?idx [0..<0 + length texts] vs (map ?cv (filter ?P texts)) = Inr r"
        "length r = length texts"
        "\<forall>i < length texts. r ! i = (if ?P (texts ! i) then ?cv (texts ! i)
                         else vs ! length (filter (\<lambda>t. \<not> ?P t) (take i texts)))"
      by blast
    have res: "fst (embed_documents_attempt sv texts use_cache w) = Inr r"
      using False ne part r(1) svc
      by (simp add: embed_documents_attempt_def Let_def)
    have u: "uncached_texts sv w use_cache texts \<noteq> []"
      using ne un [of texts] by simp
    have calls: "embed_calls (snd (embed_documents_attempt sv texts use_cache w)) =
             embed_calls w @ [uncached_texts sv w use_cache texts]"
      unfolding un [of texts] using False ne part r(1) svc
      by (simp add: embed_documents_attempt_def Let_def)
    have pos: "\<forall>i < length texts.
              r ! i =
                (if is_cached sv w use_cache (texts ! i)
                 then the (emb_cache w (md5_hexdigest sv (texts ! i)))
                 else vs ! length (uncached_texts sv w use_cache (take i texts)))"
      unfolding uncached_texts_def is_cached_def by (rule r(3))
    show ?thesis
      using res r(2) pos calls u by (intro exI [of _ r]) simp
  qed
qed

lemma retrying_ok: "fst (f w) = Inr v \<Longrightarrow> retrying k f w = f w"
  by (cases k; cases "f w") auto

text \<open>
  C5, as the code has it. If the embedding service answers the batch of texts that are not in
  the cache with one vector per text, the list \<open>vs\<close>, then \<open>embed_documents\<close> returns one
  vector per input text in input order: at a cached text the cached vector, at the \<open>k\<close>-th
  text that is not cached the \<open>k\<close>-th answer. It makes exactly one service call, none if
  every text is cached, and the argument of the call is the list of all texts not in the
  cache, in input order and with duplicates. When nothing is cached the result is \<open>vs\<close>
  itself: for \<open>["a","b","a"]\<close> and an empty cache the one call carries
  \<open>["a","b","a"]\<close>, three texts, and the result is the service's three answers in order.
\<close>

theorem embed_documents_order:
  assumes "uncached_texts sv w use_cache texts \<noteq> [] \<longrightarrow>
           aembed_documents sv (embed_calls w) (uncached_texts sv w use_cache texts) = Inr vs \<and>
           length vs = length (uncached_texts sv w use_cache texts)"
  shows "\<exists>result.
           fst (embed_documents sv texts use_cache w) = Inr result \<and>
           length result = length texts \<and>
           (\<forall>i < length texts.
              result ! i =
                (if is_cached sv w use_cache (texts ! i)
                 then the (emb_cache w (md5_hexdigest sv (texts ! i)))
                 else vs ! length (uncached_texts sv w use_cache (take i texts)))) \<and>
           (uncached_texts sv w use_cache texts = texts \<longrightarrow> texts \<noteq> [] \<longrightarrow> result = vs) \<and>
           embed_calls (snd (embed_documents sv texts use_cache w)) =
             embed_calls w @
               (if uncached_texts sv w use_cache texts = [] then []
                else [uncached_texts sv w use_cache texts])"
proof -
  from embed_documents_attempt_positions [OF assms] obtain result where
    a: "fst (embed_documents_attempt sv texts use_cache w) = Inr result" and
    l: "length result = length texts" and
    p: "\<forall>i < length texts.
              result ! i =
                (if is_cached sv w use_cache (texts ! i)
                 then the (emb_cache w (md5_hexdigest sv (texts ! i)))
                 else vs ! length (uncached_texts sv w use_cache (take i texts)))" and
    c: "embed_calls (snd (embed_documents_attempt sv texts use_cache w)) =
             embed_calls w @
               (if uncached_texts sv w use_cache texts = [] then []
                else [uncached_texts sv w use_cache texts])"
    by blast
  from a have same: "embed_documents sv texts use_cache w =
      embed_documents_attempt sv texts use_cache w"
    unfolding embed_documents_def by (rule retrying_ok)
  have all: "result = vs" if u: "uncached_texts sv w use_cache texts = texts" and ne: "texts \<noteq> []"
  proof (rule nth_equalityI)
    from assms u ne have lv: "length vs = length texts" by simp
    with l show "length result = length vs" by simp
    fix i assume "i < length result"
    with l have i: "i < length texts" by simp
    from u have none: "\<forall>t \<in> set texts. \<not> is_cached sv w use_cache t"
      by (simp add: uncached_texts_def filter_id_conv)
    with i have "\<not> is_cached sv w use_cache (texts ! i)" by simp
    moreover have "uncached_texts sv w use_cache (take i texts) = take i texts"
      using none by (auto simp: uncached_texts_def filter_id_conv dest: in_set_takeD)
    ultimately show "result ! i = vs ! i"
      using p i by simp
  qed
  from a l p c same all show ?thesis by auto
qed

theorem embed_documents_order_witness:
  "uncached_texts positional_services example_world True [''a'', ''b'', ''a''] =
     [''a'', ''b'', ''a''] \<and>
   aembed_documents positional_services (embed_calls example_world) [''a'', ''b'', ''a''] =
     Inr [[0], [1], [2]] \<and>
   length [[0], [1], [2::real]] = length [''a'', ''b'', ''a''] \<and>
   fst (embed_documents positional_services [''a'', ''b'', ''a''] True example_world) =
     Inr [[0], [1], [2]] \<and>
   embed_calls (snd (embed_documents positional_services [''a'', ''b'', ''a''] True example_world)) =
     [[''a'', ''b'', ''a'']]"
proof -
  have u: "uncached_texts positional_services example_world True [''a'', ''b'', ''a'']
             = [''a'', ''b'', ''a'']"
    by code_simp
  have s: "aembed_documents positional_services (embed_calls example_world)
             [''a'', ''b'', ''a''] = Inr [[0], [1], [2]]"
    by code_simp
  have l: "embed_calls example_world = []" by (simp add: example_world_def)
  from embed_documents_order [where sv = positional_services and w = example_world
      and use_cache = True and texts = "[''a'', ''b'', ''a'']" and vs = "[[0], [1], [2]]"]
    u s l
  show ?thesis by auto
qed

text \<open>The one call made for \<open>["a","b","a"]\<close> carries three texts, not two.\<close>

theorem embed_documents_order_counterexample:
  "embed_calls (snd (embed_documents code_point_services [''a'', ''b'', ''a''] True example_world))
     = [[''a'', ''b'', ''a'']] \<and>
   \<not> length (hd (embed_calls
        (snd (embed_documents code_point_services [''a'', ''b'', ''a''] True example_world)))) < 3"
  by code_simp

subsection \<open>The pipeline\<close>

lemma length_first_occurrences: "length (first_occurrences xs) \<le> length xs"
proof (induction xs)
  case Nil
  then show ?case by simp
next
  case (Cons x xs)
  have "length (filter (\<lambda>y. y \<noteq> x) (first_occurrences xs)) \<le> length xs"
    using length_filter_le Cons by (rule le_trans)
  then show ?case by simp
qed

lemma length_deduplicate_results: "length (deduplicate_results rs) \<le> length rs"
proof -
  have "length (deduplicate_results rs) = length (map fst (foldl dedup_step [] rs))"
    by (simp add: deduplicate_results_def py_sorted_desc_def)
  also have "\<dots> = length (first_occurrences (map sp_id rs))"
    by (simp only: dedup_keys)
  also have "\<dots> \<le> length rs"
    using length_first_occurrences [of "map sp_id rs"] by simp
  finally show ?thesis .
qed

lemma length_convert_to_documents:
  "convert_to_documents rs = Inr ds \<Longrightarrow> length ds = length rs"
  by (induction rs arbitrary: ds) (auto split: sum.splits)

lemma length_compress_documents:
  "length (fst (compress_documents sv cp documents query w)) \<le> length documents"
proof -
  obtain out tot w' where run: "compress_loop sv cp query documents ([], 0, w) = (out, tot, w')"
    by (cases "compress_loop sv cp query documents ([], 0, w)")
  from compress_loop_inv [OF run] have "length out \<le> length documents"
    by (simp add: tokens_of_def)
  with run show ?thesis
    by (simp add: compress_documents_def del: compress_loop.simps)
qed

lemma search_all_length:
  assumes limit: "\<And>calls req hits. qdrant_search sv calls req = Inr hits \<Longrightarrow>
                    int (length hits) \<le> req_limit req"
  shows "search_all sv pl qf pairs w = (Inr rs, w') \<Longrightarrow>
         int (length rs) \<le> top_k pl * int (length pairs) \<and> (pairs \<noteq> [] \<longrightarrow> 0 \<le> top_k pl)"
proof (induction pairs arbitrary: w rs)
  case Nil
  then show ?case by simp
next
  case (Cons p pairs)
  obtain query_text e where p: "p = (query_text, e)" by (cases p)
  let ?req = "\<lparr>req_collection = collection_name pl, req_vector = e, req_limit = top_k pl,
                req_score_threshold = score_threshold pl, req_filter = qf\<rparr>"
  let ?w1 = "w\<lparr>search_calls := search_calls w @ [?req]\<rparr>"
  from Cons.prems p obtain results others where
    first: "qdrant_search sv (search_calls w) ?req = Inr results" and
    rest: "search_all sv pl qf pairs ?w1 = (Inr others, w')" and
    rs: "rs = results @ others"
    by (auto simp: Let_def split: sum.splits prod.splits)
  from limit [OF first] have a: "int (length results) \<le> top_k pl" by simp
  from Cons.IH [OF rest] have b: "int (length others) \<le> top_k pl * int (length pairs)" by simp
  have "top_k pl * int (length (p # pairs)) = top_k pl + top_k pl * int (length pairs)"
    by (simp add: algebra_simps)
  with a b rs show ?case by simp
qed

lemma merge_results_length:
  "merge_results idx is new cached = Inr r \<Longrightarrow> length r = length is"
  by (induction "is" arbitrary: new cached r) (auto split: if_splits list.splits sum.splits)

lemma embed_documents_attempt_length:
  assumes "embed_documents_attempt sv texts use_cache w = (Inr r, w')"
  shows "length r = length texts"
proof (cases "texts = []")
  case True
  with assms show ?thesis by (simp add: embed_documents_attempt_def)
next
  case False
  let ?P = "\<lambda>t. use_cache \<and> emb_cache w (md5_hexdigest sv t) \<noteq> None"
  note part = partition_texts_eq [of "md5_hexdigest sv" "emb_cache w" use_cache 0 texts]
  show ?thesis
  proof (cases "filter (\<lambda>t. \<not> ?P t) texts = []")
    case True
    then have "\<forall>t \<in> set texts. ?P t" by (simp add: filter_empty_conv)
    then have "filter ?P texts = texts" by (simp add: filter_id_conv)
    with True False part assms show ?thesis
      by (auto simp: embed_documents_attempt_def)
  next
    case ne: False
    with False part assms obtain idx new cached where
      "merge_results idx [0..<length texts] new cached = Inr r"
      by (auto simp: embed_documents_attempt_def Let_def split: sum.splits)
    from merge_results_length [OF this] show ?thesis by simp
  qed
qed

lemma retrying_result:
  "retrying k f w = (Inr r, w') \<Longrightarrow> \<exists>w0 w1. f w0 = (Inr r, w1)"
proof (induction k arbitrary: w)
  case 0
  then show ?case by auto
next
  case (Suc k)
  show ?case
  proof (cases "f w")
    case (Pair res w1)
    show ?thesis
    proof (cases res)
      case (Inl e)
      with Pair Suc.prems have "retrying k f w1 = (Inr r, w')" by simp
      then show ?thesis by (rule Suc.IH)
    next
      case (Inr v)
      with Pair Suc.prems show ?thesis by auto
    qed
  qed
qed

lemma embed_documents_length:
  assumes "embed_documents sv texts use_cache w = (Inr r, w')"
  shows "length r = length texts"
proof -
  from assms obtain w0 w1 where "embed_documents_attempt sv texts use_cache w0 = (Inr r, w1)"
    unfolding embed_documents_def by (blast dest: retrying_result)
  then show ?thesis by (rule embed_documents_attempt_length)
qed

lemma expansion_length:
  assumes "0 \<le> rag_multi_query_variations st"
    and "expand_queries sv st query emq w = (Inr queries, w1)"
  shows "queries \<noteq> [] \<and>
         int (length queries) \<le> (if emq then rag_multi_query_variations st + 1 else 1)"
proof (cases emq)
  case False
  with assms(2) show ?thesis by (auto simp: expand_queries_def)
next
  case True
  let ?mq = "global_multi_query_retriever st"
  have n: "num_variations ?mq = rag_multi_query_variations st"
    by (simp add: global_multi_query_retriever_def MultiQueryRetriever_init_def)
  from True assms(2) have g: "generate_queries sv ?mq query w = (Inr queries, w1)"
    by (simp add: expand_queries_def)
  then have nb: "strip query \<noteq> []"
    by (auto simp: generate_queries_def)
  from generate_queries_cases [OF nb, of ?mq sv w] assms(1) n g
  obtain vs where "queries = query # take (nat (num_variations ?mq))
                  (filter (\<lambda>var. var \<noteq> query) vs)"
    by auto
  then show ?thesis using True n assms(1) by simp
qed

lemma example_services_limit:
  "qdrant_search example_services calls req = Inr hits \<Longrightarrow> int (length hits) \<le> req_limit req"
  by (auto simp: example_services_def split: if_splits)

text \<open>
  C4, as the code has it. \<open>top_k\<close> limits each search, not the result: when the vector index
  returns at most \<open>limit\<close> hits per search and the configured number of variations is not
  negative, a successful \<open>retrieve\<close> returns at most \<open>top_k\<close> documents for each query
  searched, that is at most \<open>top_k\<close> without query expansion and at most
  \<open>top_k * (rag_multi_query_variations + 1)\<close> with it. The result is not truncated to
  \<open>top_k\<close>.
\<close>

theorem retrieve_length_bound:
  assumes limit: "\<And>calls req hits. qdrant_search sv calls req = Inr hits \<Longrightarrow>
                    int (length hits) \<le> req_limit req"
    and variations: "0 \<le> rag_multi_query_variations st"
    and ok: "fst (retrieve sv st pl query mf emq w) = Inr docs"
  shows "int (length docs) \<le>
           top_k pl * (if emq then rag_multi_query_variations st + 1 else 1)"
proof -
  from ok obtain w' where "retrieve_try sv st pl query mf emq w = (Inr docs, w')"
    by (auto dest: retrieve_Inr)
  then obtain queries w1 embs w2 qf all_results w3 converted w4 where
    g: "expand_queries sv st query emq w = (Inr queries, w1)" and
    e: "embed_documents sv queries True w1 = (Inr embs, w2)" and
    s: "search_all sv pl qf (zip queries embs) w2 = (Inr all_results, w3)" and
    c: "convert_to_documents (deduplicate_results all_results) = Inr converted" and
    d: "compress_if_enabled sv st pl converted query w3 = (docs, w4)"
    by (rule retrieve_try_Inr)
  let ?K = "if emq then rag_multi_query_variations st + 1 else 1"
  from expansion_length [OF variations g]
  have q: "queries \<noteq> []" "int (length queries) \<le> ?K" by simp_all
  from embed_documents_length [OF e] have len: "length embs = length queries" .
  with q have pairs: "zip queries embs \<noteq> []" "int (length (zip queries embs)) \<le> ?K"
    by (cases queries; cases embs; simp)+
  from search_all_length [OF limit s] pairs(1)
  have r: "int (length all_results) \<le> top_k pl * int (length (zip queries embs))"
    and k: "0 \<le> top_k pl" by simp_all
  from k pairs(2) have "top_k pl * int (length (zip queries embs)) \<le> top_k pl * ?K"
    by (rule mult_left_mono [rotated])
  with r have a: "int (length all_results) \<le> top_k pl * ?K" by linarith
  have "length docs \<le> length converted"
  proof (cases "enable_compression pl \<and> nonempty converted")
    case True
    with d have "docs = fst (compress_documents sv (global_compressor st) converted query w3)"
      by (simp add: compress_if_enabled_def)
    then show ?thesis by (simp add: length_compress_documents)
  next
    case False
    with d show ?thesis by (auto simp: compress_if_enabled_def)
  qed
  also have "\<dots> = length (deduplicate_results all_results)"
    using c by (rule length_convert_to_documents)
  also have "\<dots> \<le> length all_results" by (rule length_deduplicate_results)
  finally have "int (length docs) \<le> int (length all_results)" by simp
  with a show ?thesis by linarith
qed

theorem retrieve_length_bound_witness:
  "0 \<le> rag_multi_query_variations example_settings \<and>
   map_sum (\<lambda>e. e) (map page_content)
     (fst (retrieve example_services example_settings example_pipeline ''q'' None True
        example_world)) = Inr [''d1'', ''d2''] \<and>
   (2::int) \<le> top_k example_pipeline * (rag_multi_query_variations example_settings + 1)"
proof -
  let ?r = "fst (retrieve example_services example_settings example_pipeline ''q'' None True
        example_world)"
  have v: "0 \<le> rag_multi_query_variations example_settings"
    by (simp add: example_settings_def)
  have ev: "map_sum (\<lambda>e. e) (map page_content) ?r = Inr [''d1'', ''d2'']"
    by code_simp
  then obtain docs where ok: "?r = Inr docs" and "map page_content docs = [''d1'', ''d2'']"
    by (cases ?r) auto
  then have "length docs = 2"
    by (metis length_map length_Cons list.size(3) numeral_2_eq_2)
  with retrieve_length_bound [OF example_services_limit v ok] v ev show ?thesis
    by simp
qed

text \<open>With \<open>top_k = 1\<close> and two distinct hits from three searches, the successful call
  returns two documents.\<close>

theorem retrieve_length_bound_counterexample:
  "map_sum (\<lambda>e. e) (\<lambda>docs. int (length docs) \<le> top_k example_pipeline)
     (fst (retrieve example_services example_settings example_pipeline ''q'' None True
        example_world)) = Inr False"
  by code_simp
















end
